theory Spec2Isabelle
  imports Main "HOL-Library.Sublist" "HOL-Library.AList"
begin

section \<open>Python values, exceptions and strings\<close>

text \<open>
  The exceptions the script can raise. \<open>ConnectorError\<close> stands for whatever the Snowflake
  connector raises from \<open>connect\<close>, \<open>execute\<close> or a fetch; \<open>OverflowError\<close> is what
  \<open>datetime - timedelta\<close> raises below year 1; \<open>FileNotFoundError\<close> is \<open>open\<close> on a missing
  \<open>index.html\<close>.
\<close>

datatype error = ValueError | TypeError | OverflowError | FileNotFoundError | ConnectorError

text \<open>
  A Python \<open>str\<close> is a \<open>string\<close>: one \<open>char\<close> per code point, so the model covers the
  code points below 256. The script never computes with a float: it receives floats from the
  driver and hands them to \<open>json.dumps\<close>, which prints \<open>float.__repr__\<close>. A float is
  therefore carried by that text.
\<close>

datatype pyfloat = PyFloat (float_repr: string)

definition bind_err :: "error + 'a \<Rightarrow> ('a \<Rightarrow> error + 'b) \<Rightarrow> error + 'b" where
  "bind_err r f = (case r of Inl e \<Rightarrow> Inl e | Inr x \<Rightarrow> f x)"

fun map_err :: "('a \<Rightarrow> error + 'b) \<Rightarrow> 'a list \<Rightarrow> error + 'b list" where
  "map_err f [] = Inr []"
| "map_err f (x # xs) = bind_err (f x) (\<lambda>y. bind_err (map_err f xs) (\<lambda>ys. Inr (y # ys)))"

text \<open>\<open>int(x)\<close> and \<open>float(x)\<close> on a column of the driver: \<open>None\<close> is a \<open>TypeError\<close>.\<close>

definition py_int :: "int option \<Rightarrow> error + int" where
  "py_int x = (case x of None \<Rightarrow> Inl TypeError | Some i \<Rightarrow> Inr i)"

definition py_float :: "pyfloat option \<Rightarrow> error + pyfloat" where
  "py_float x = (case x of None \<Rightarrow> Inl TypeError | Some f \<Rightarrow> Inr f)"

text \<open>\<open>str(x)\<close> on a nullable text column: \<open>str(None)\<close> is the text \<open>None\<close>.\<close>

definition py_str :: "string option \<Rightarrow> string" where
  "py_str x = (case x of None \<Rightarrow> ''None'' | Some s \<Rightarrow> s)"

text \<open>\<open>str.strip()\<close>: the code points below 256 for which \<open>str.isspace\<close> holds.\<close>

definition is_space :: "char \<Rightarrow> bool" where
  "is_space c = (let n = (of_char c :: nat) in
     (9 \<le> n \<and> n \<le> 13) \<or> (28 \<le> n \<and> n \<le> 32) \<or> n = 133 \<or> n = 160)"

definition py_strip :: "string \<Rightarrow> string" where
  "py_strip s = rev (dropWhile is_space (rev (dropWhile is_space s)))"

text \<open>
  \<open>s.find(sub, start)\<close>: the lowest index at or after \<open>start\<close> where \<open>sub\<close> occurs, or
  \<open>-1\<close>. A negative \<open>start\<close> counts from the end and is clamped at 0; a \<open>start\<close> beyond the
  end finds nothing. \<open>find_at sub cs i\<close> scans \<open>cs\<close>, whose first character has index \<open>i\<close>.
\<close>

fun find_at :: "string \<Rightarrow> string \<Rightarrow> nat \<Rightarrow> int" where
  "find_at sub [] i = (if sub = [] then int i else - 1)"
| "find_at sub (c # cs) i = (if prefix sub (c # cs) then int i else find_at sub cs (Suc i))"

definition clamp_index :: "string \<Rightarrow> int \<Rightarrow> int" where
  "clamp_index s i = (if i < 0 then max 0 (i + int (length s)) else i)"

definition py_find :: "string \<Rightarrow> string \<Rightarrow> int \<Rightarrow> int" where
  "py_find s sub start =
     (let b = clamp_index s start
      in if int (length s) < b then - 1 else find_at sub (drop (nat b) s) (nat b))"

text \<open>The slices \<open>s[:i]\<close> and \<open>s[i:]\<close>.\<close>

definition slice_to :: "string \<Rightarrow> int \<Rightarrow> string" where
  "slice_to s i = take (nat (clamp_index s i)) s"

definition slice_from :: "string \<Rightarrow> int \<Rightarrow> string" where
  "slice_from s i = drop (nat (clamp_index s i)) s"

text \<open>
  Text mode. \<open>open(path, 'r')\<close> reads with universal newlines: a carriage return followed
  by a line feed, and a carriage return alone, both arrive as one line feed.
  \<open>open(path, 'w')\<close> writes every line feed as \<open>os.linesep\<close>, which is a line feed on the
  POSIX platform modelled here, and every other character as it is.
\<close>

fun universal_newlines :: "string \<Rightarrow> string" where
  "universal_newlines [] = []"
| "universal_newlines [c] = (if c = CHR 0x0D then [CHR 0x0A] else [c])"
| "universal_newlines (c # d # cs) =
     (if c = CHR 0x0D \<and> d = CHR 0x0A then CHR 0x0A # universal_newlines cs
      else if c = CHR 0x0D then CHR 0x0A # universal_newlines (d # cs)
      else c # universal_newlines (d # cs))"

definition os_linesep :: string where
  "os_linesep = [CHR 0x0A]"

definition write_newlines :: "string \<Rightarrow> string" where
  "write_newlines s = concat (map (\<lambda>c. if c = CHR 0x0A then os_linesep else [c]) s)"

text \<open>Decimal digits: \<open>int.__repr__\<close>, and the zero-padded fields of \<open>strftime\<close>.\<close>

definition digit_char :: "nat \<Rightarrow> char" where
  "digit_char d = ''0123456789abcdef'' ! d"

fun nat_digits :: "nat \<Rightarrow> string" where
  "nat_digits n = (if n < 10 then [digit_char n] else nat_digits (n div 10) @ [digit_char (n mod 10)])"

definition int_repr :: "int \<Rightarrow> string" where
  "int_repr i = (if i < 0 then CHR ''-'' # nat_digits (nat (- i)) else nat_digits (nat i))"

definition zero_pad :: "nat \<Rightarrow> nat \<Rightarrow> string" where
  "zero_pad w n = replicate (w - length (nat_digits n)) CHR ''0'' @ nat_digits n"

declare nat_digits.simps [simp del]

section \<open>The library's JSON encoder: \<open>json.dumps(obj, indent=12)\<close>\<close>

text \<open>
  The values the script serializes: text, integers, floats, \<open>None\<close>, lists, and dicts with
  text keys in insertion order.
\<close>

datatype json = JNull | JStr string | JInt int | JFloat pyfloat | JList "json list"
  | JDict "(string \<times> json) list"

text \<open>
  \<open>encode_basestring_ascii\<close>: the backslash and the double quote are escaped, the control
  characters \<open>\b \t \n \f \r\<close> have short escapes, a printable ASCII character (space to
  tilde) stands for itself, and any other code point below 256 is \<open>\u00\<close> followed by two
  lower-case hexadecimal digits.
\<close>

definition escape_char :: "char \<Rightarrow> string" where
  "escape_char c = (let n = (of_char c :: nat) in
     if n = 92 then [CHR 0x5C, CHR 0x5C]
     else if n = 34 then [CHR 0x5C, CHR 0x22]
     else if n = 8 then [CHR 0x5C, CHR ''b'']
     else if n = 12 then [CHR 0x5C, CHR ''f'']
     else if n = 10 then [CHR 0x5C, CHR ''n'']
     else if n = 13 then [CHR 0x5C, CHR ''r'']
     else if n = 9 then [CHR 0x5C, CHR ''t'']
     else if 32 \<le> n \<and> n \<le> 126 then [c]
     else [CHR 0x5C, CHR ''u'', CHR ''0'', CHR ''0'', digit_char (n div 16), digit_char (n mod 16)])"

definition encode_basestring_ascii :: "string \<Rightarrow> string" where
  "encode_basestring_ascii s = [CHR 0x22] @ concat (map escape_char s) @ [CHR 0x22]"

text \<open>\<open>floatstr\<close>: the three non-finite floats have JavaScript names, the others their repr.\<close>

definition floatstr :: "pyfloat \<Rightarrow> string" where
  "floatstr f =
     (if float_repr f = ''nan'' then ''NaN''
      else if float_repr f = ''inf'' then ''Infinity''
      else if float_repr f = ''-inf'' then ''-Infinity''
      else float_repr f)"

definition newline_indent :: "nat \<Rightarrow> nat \<Rightarrow> string" where
  "newline_indent indent level = CHR 0x0A # replicate (indent * level) CHR '' ''"

fun intercalate :: "string \<Rightarrow> string list \<Rightarrow> string" where
  "intercalate sep [] = []"
| "intercalate sep [x] = x"
| "intercalate sep (x # y # ys) = x @ sep @ intercalate sep (y # ys)"

text \<open>
  \<open>_iterencode\<close> at nesting depth \<open>level\<close>: an empty list or dict is \<open>[]\<close> or \<open>{}\<close>; otherwise
  every item is on a line of its own, indented by \<open>indent * (level + 1)\<close> spaces, the items
  are separated by a comma, a key and its value by a colon and a space, and the closing
  bracket is on a line of its own, indented by \<open>indent * level\<close> spaces.
\<close>

fun iterencode :: "nat \<Rightarrow> nat \<Rightarrow> json \<Rightarrow> string" where
  "iterencode indent level JNull = ''null''"
| "iterencode indent level (JStr s) = encode_basestring_ascii s"
| "iterencode indent level (JInt i) = int_repr i"
| "iterencode indent level (JFloat f) = floatstr f"
| "iterencode indent level (JList xs) =
     (if xs = [] then ''[]''
      else ''['' @ newline_indent indent (Suc level)
        @ intercalate ('','' @ newline_indent indent (Suc level))
            (map (iterencode indent (Suc level)) xs)
        @ newline_indent indent level @ '']'')"
| "iterencode indent level (JDict kvs) =
     (if kvs = [] then ''{}''
      else ''{'' @ newline_indent indent (Suc level)
        @ intercalate ('','' @ newline_indent indent (Suc level))
            (map (\<lambda>kv. encode_basestring_ascii (fst kv) @ '': ''
                    @ iterencode indent (Suc level) (snd kv)) kvs)
        @ newline_indent indent level @ ''}'')"

definition json_dumps :: "json \<Rightarrow> nat \<Rightarrow> string" where
  "json_dumps obj indent = iterencode indent 0 obj"

section \<open>The library's calendar: \<open>datetime\<close>, \<open>timedelta\<close>, \<open>strftime\<close>\<close>

text \<open>
  Only the date of \<open>datetime.now()\<close> is ever printed, so the clock is a calendar date. The
  arithmetic is the library's: a date is turned into its proleptic Gregorian ordinal (day 1
  is 0001-01-01), the days are subtracted, and the ordinal is turned back into a date.
\<close>

record date =
  year :: int
  month :: int
  day :: int

definition DAYS_IN_MONTH :: "int list" where
  "DAYS_IN_MONTH = [- 1, 31, 28, 31, 30, 31, 30, 31, 31, 30, 31, 30, 31]"

definition DAYS_BEFORE_MONTH :: "int list" where
  "DAYS_BEFORE_MONTH = [- 1, 0, 31, 59, 90, 120, 151, 181, 212, 243, 273, 304, 334]"

definition is_leap :: "int \<Rightarrow> bool" where
  "is_leap y = (y mod 4 = 0 \<and> (y mod 100 \<noteq> 0 \<or> y mod 400 = 0))"

definition days_before_year :: "int \<Rightarrow> int" where
  "days_before_year y = (let z = y - 1 in z * 365 + z div 4 - z div 100 + z div 400)"

definition days_in_month :: "int \<Rightarrow> int \<Rightarrow> int" where
  "days_in_month y m = (if m = 2 \<and> is_leap y then 29 else DAYS_IN_MONTH ! nat m)"

definition days_before_month :: "int \<Rightarrow> int \<Rightarrow> int" where
  "days_before_month y m = DAYS_BEFORE_MONTH ! nat m + (if m > 2 \<and> is_leap y then 1 else 0)"

definition ymd2ord :: "date \<Rightarrow> int" where
  "ymd2ord d = days_before_year (year d) + days_before_month (year d) (month d) + day d"

definition ord2ymd :: "int \<Rightarrow> date" where
  "ord2ymd ordinal =
     (let n = ordinal - 1;
          n400 = n div 146097; n = n mod 146097;
          n100 = n div 36524; n = n mod 36524;
          n4 = n div 1461; n = n mod 1461;
          n1 = n div 365; n = n mod 365;
          y = n400 * 400 + 1 + n100 * 100 + n4 * 4 + n1
      in if n1 = 4 \<or> n100 = 4 then \<lparr>year = y - 1, month = 12, day = 31\<rparr>
         else
           let leapyear = (n1 = 3 \<and> (n4 \<noteq> 24 \<or> n100 = 3));
               m = (n + 50) div 32;
               preceding = DAYS_BEFORE_MONTH ! nat m + (if m > 2 \<and> leapyear then 1 else 0)
           in if preceding > n
              then let m' = m - 1;
                       preceding' = preceding
                         - (DAYS_IN_MONTH ! nat m' + (if m' = 2 \<and> leapyear then 1 else 0))
                   in \<lparr>year = y, month = m', day = n - preceding' + 1\<rparr>
              else \<lparr>year = y, month = m, day = n - preceding + 1\<rparr>)"

text \<open>The dates a \<open>datetime\<close> can hold: years 1 to 9999.\<close>

definition valid_date :: "date \<Rightarrow> bool" where
  "valid_date d = (1 \<le> year d \<and> year d \<le> 9999 \<and> 1 \<le> month d \<and> month d \<le> 12
     \<and> 1 \<le> day d \<and> day d \<le> days_in_month (year d) (month d))"

text \<open>\<open>d - timedelta(days=n)\<close>: an \<open>OverflowError\<close> when the result is before 0001-01-01.\<close>

definition minus_days :: "date \<Rightarrow> int \<Rightarrow> error + date" where
  "minus_days d n =
     (let ordinal = ymd2ord d - n
      in if ordinal < 1 \<or> 3652059 < ordinal then Inl OverflowError else Inr (ord2ymd ordinal))"

text \<open>
  \<open>d.strftime('%Y-%m-%d')\<close>. The year is padded to four digits; for the years below 1000 the
  padding of \<open>%Y\<close> depends on the platform's C library, from 1000 on every platform agrees.
\<close>

definition strftime_ymd :: "date \<Rightarrow> string" where
  "strftime_ymd d = zero_pad 4 (nat (year d)) @ ''-'' @ zero_pad 2 (nat (month d)) @ ''-''
     @ zero_pad 2 (nat (day d))"

section \<open>The data source and the world of one run\<close>

text \<open>
  A row of each query, as the driver returns it: a \<open>COUNT\<close> column is an \<open>int\<close>, a \<open>FLOAT\<close>
  aggregate a \<open>float\<close>, a text column a \<open>str\<close>, and SQL \<open>NULL\<close> in any column is \<open>None\<close>.
\<close>

type_synonym summary_row = "int option \<times> int option \<times> pyfloat option \<times> pyfloat option"
type_synonym bucket_row = "string option \<times> int option"
type_synonym institution_row = "string option \<times> int option \<times> pyfloat option"

text \<open>
  The data source is what \<open>snowflake.connector\<close> answers: whether \<open>connect\<close> succeeds and,
  for each of the four queries and each pair of date texts, either the exception that
  \<open>execute\<close> or the fetch raises, or the rows (\<open>fetchone\<close> gives one row or \<open>None\<close>). The queries
  only read.
\<close>

record datasource =
  connect_error :: "error option"
  summary_result :: "string \<Rightarrow> string \<Rightarrow> error + summary_row option"
  buckets_result :: "string \<Rightarrow> string \<Rightarrow> error + bucket_row list"
  frequency_result :: "string \<Rightarrow> string \<Rightarrow> error + institution_row list"
  volume_result :: "string \<Rightarrow> string \<Rightarrow> error + institution_row list"

text \<open>
  What an aggregate query without \<open>GROUP BY\<close> returns when no row matches its \<open>WHERE\<close>
  clause: one row, the two \<open>COUNT\<close>s 0 and \<open>SUM\<close> and \<open>AVG\<close> \<open>NULL\<close>.
\<close>

definition zero_rows_summary :: "summary_row option" where
  "zero_rows_summary = Some (Some 0, Some 0, None, None)"

text \<open>
  The state a run can change: the connection, and the text of \<open>index.html\<close> (\<open>None\<close> when
  the file does not exist). What the script prints is not part of the state.
\<close>

datatype connection = NotConnected | Open | Closed

record world =
  conn :: connection
  index_html :: "string option"

section \<open>The aggregator\<close>

record summary_stats =
  uniqueUsers :: int
  totalTransactions :: int
  totalVolume :: pyfloat
  avgDeposit :: pyfloat

text \<open>The dict \<open>{'range': ..., 'count': ...}\<close>.\<close>

record bucket =
  b_range :: "string option"
  b_count :: int

text \<open>The dict \<open>{'name': ..., 'count': ..., 'volume': ...}\<close>.\<close>

record institution =
  i_name :: string
  i_count :: int
  i_volume :: pyfloat

definition query_summary_stats :: "datasource \<Rightarrow> string \<Rightarrow> string \<Rightarrow> error + summary_stats" where
  "query_summary_stats ds start_date end_date =
     bind_err (summary_result ds start_date end_date) (\<lambda>result.
       case result of
         None \<Rightarrow> Inl TypeError
       | Some (r0, r1, r2, r3) \<Rightarrow>
           bind_err (py_int r0) (\<lambda>u.
           bind_err (py_int r1) (\<lambda>t.
           bind_err (py_float r2) (\<lambda>v.
           bind_err (py_float r3) (\<lambda>a.
             Inr \<lparr>uniqueUsers = u, totalTransactions = t, totalVolume = v, avgDeposit = a\<rparr>)))))"

definition bucket_order :: "string list" where
  "bucket_order = [''$1-$250'', ''$250-$500'', ''$500-$750'', ''$750-$1,000'',
                   ''$1,000-$1,500'', ''$1,500-$2,500'', ''$2,500+'']"

text \<open>\<open>xs.index(x)\<close>: the first position of \<open>x\<close>, a \<open>ValueError\<close> when it is not in the list.\<close>

fun list_index :: "'a list \<Rightarrow> 'a \<Rightarrow> error + nat" where
  "list_index [] x = Inl ValueError"
| "list_index (y # ys) x = (if y = x then Inr 0 else bind_err (list_index ys x) (\<lambda>i. Inr (Suc i)))"

text \<open>
  \<open>xs.sort(key=f)\<close>: the key of every element is computed first, in list order, and an
  exception of \<open>f\<close> leaves the sort undone; then the elements are sorted by their keys, equal
  keys keeping their order.
\<close>

definition list_sort :: "('a \<Rightarrow> error + nat) \<Rightarrow> 'a list \<Rightarrow> error + 'a list" where
  "list_sort f xs = bind_err (map_err f xs) (\<lambda>ks. Inr (map snd (sort_key fst (zip ks xs))))"

definition query_buckets :: "datasource \<Rightarrow> string \<Rightarrow> string \<Rightarrow> error + bucket list" where
  "query_buckets ds start_date end_date =
     bind_err (buckets_result ds start_date end_date) (\<lambda>results.
     bind_err (map_err (\<lambda>(b, c). bind_err (py_int c) (\<lambda>n. Inr \<lparr>b_range = b, b_count = n\<rparr>)) results)
       (\<lambda>buckets. list_sort (\<lambda>x. list_index (map Some bucket_order) (b_range x)) buckets))"

definition institution_of_row :: "institution_row \<Rightarrow> error + institution" where
  "institution_of_row r = (case r of (n, c, v) \<Rightarrow>
     bind_err (py_int c) (\<lambda>k.
     bind_err (py_float v) (\<lambda>f.
       Inr \<lparr>i_name = py_strip (py_str n), i_count = k, i_volume = f\<rparr>)))"

definition query_top_by_frequency :: "datasource \<Rightarrow> string \<Rightarrow> string \<Rightarrow> error + institution list" where
  "query_top_by_frequency ds start_date end_date =
     bind_err (frequency_result ds start_date end_date) (map_err institution_of_row)"

definition query_top_by_volume :: "datasource \<Rightarrow> string \<Rightarrow> string \<Rightarrow> error + institution list" where
  "query_top_by_volume ds start_date end_date =
     bind_err (volume_result ds start_date end_date) (map_err institution_of_row)"

section \<open>The date-range planner\<close>

text \<open>The dict of the seven named ranges, in insertion order; \<open>today\<close> is \<open>datetime.now()\<close>.\<close>

definition get_date_ranges :: "date \<Rightarrow> error + (string \<times> string \<times> string) list" where
  "get_date_ranges today =
     bind_err (minus_days today 30) (\<lambda>d30.
     bind_err (minus_days today 60) (\<lambda>d60.
     bind_err (minus_days today 90) (\<lambda>d90.
       Inr [(''last_30'', strftime_ymd d30, strftime_ymd today),
            (''last_60'', strftime_ymd d60, strftime_ymd today),
            (''last_90'', strftime_ymd d90, strftime_ymd today),
            (''august_2025'', ''2025-08-01'', ''2025-08-31''),
            (''september_2025'', ''2025-09-01'', ''2025-09-30''),
            (''october_2025'', ''2025-10-01'', ''2025-10-31''),
            (''november_2025'', ''2025-11-01'', ''2025-11-30'')])))"

section \<open>The cache builder\<close>

record range_snapshot =
  summary :: summary_stats
  buckets :: "bucket list"
  topByFrequency :: "institution list"
  topByVolume :: "institution list"

text \<open>
  The cache is a dict: an association list in insertion order, in which storing under a key
  that is present replaces the value where it stands (\<open>AList.update\<close>).
\<close>

type_synonym cache = "(string \<times> range_snapshot) list"

definition snapshot :: "datasource \<Rightarrow> string \<Rightarrow> string \<Rightarrow> error + range_snapshot" where
  "snapshot ds start_date end_date =
     bind_err (query_summary_stats ds start_date end_date) (\<lambda>s.
     bind_err (query_buckets ds start_date end_date) (\<lambda>b.
     bind_err (query_top_by_frequency ds start_date end_date) (\<lambda>f.
     bind_err (query_top_by_volume ds start_date end_date) (\<lambda>v.
       Inr \<lparr>summary = s, buckets = b, topByFrequency = f, topByVolume = v\<rparr>))))"

text \<open>The loop over \<open>date_ranges.items()\<close>; the first exception ends it.\<close>

fun build_cache :: "datasource \<Rightarrow> (string \<times> string \<times> string) list \<Rightarrow> cache \<Rightarrow> error + cache" where
  "build_cache ds [] data_cache = Inr data_cache"
| "build_cache ds ((range_name, start_date, end_date) # rest) data_cache =
     (let cache_key = start_date @ ''_'' @ end_date
      in bind_err (snapshot ds start_date end_date) (\<lambda>snap.
           build_cache ds rest (AList.update cache_key snap data_cache)))"

text \<open>
  \<open>query_all_data\<close>: connect, plan, build, close. \<open>conn.close()\<close> is the last statement before
  the \<open>return\<close> and stands in no \<open>finally\<close>: an exception before it leaves the function at once.
\<close>

definition query_all_data :: "datasource \<Rightarrow> date \<Rightarrow> world \<Rightarrow> (error + cache) \<times> world" where
  "query_all_data ds today w =
     (case connect_error ds of
        Some e \<Rightarrow> (Inl e, w)
      | None \<Rightarrow>
          (let w1 = w\<lparr>conn := Open\<rparr>
           in (case bind_err (get_date_ranges today) (\<lambda>date_ranges. build_cache ds date_ranges []) of
                 Inl e \<Rightarrow> (Inl e, w1)
               | Inr data_cache \<Rightarrow> (Inr data_cache, w1\<lparr>conn := Closed\<rparr>))))"

section \<open>The report injector\<close>

definition json_of_summary :: "summary_stats \<Rightarrow> json" where
  "json_of_summary s = JDict [(''uniqueUsers'', JInt (uniqueUsers s)),
     (''totalTransactions'', JInt (totalTransactions s)),
     (''totalVolume'', JFloat (totalVolume s)), (''avgDeposit'', JFloat (avgDeposit s))]"

definition json_of_bucket :: "bucket \<Rightarrow> json" where
  "json_of_bucket b = JDict [(''range'', (case b_range b of None \<Rightarrow> JNull | Some l \<Rightarrow> JStr l)),
     (''count'', JInt (b_count b))]"

definition json_of_institution :: "institution \<Rightarrow> json" where
  "json_of_institution i = JDict [(''name'', JStr (i_name i)), (''count'', JInt (i_count i)),
     (''volume'', JFloat (i_volume i))]"

definition json_of_snapshot :: "range_snapshot \<Rightarrow> json" where
  "json_of_snapshot r = JDict [(''summary'', json_of_summary (summary r)),
     (''buckets'', JList (map json_of_bucket (buckets r))),
     (''topByFrequency'', JList (map json_of_institution (topByFrequency r))),
     (''topByVolume'', JList (map json_of_institution (topByVolume r)))]"

definition json_of_cache :: "cache \<Rightarrow> json" where
  "json_of_cache c = JDict (map (\<lambda>(k, r). (k, json_of_snapshot r)) c)"

definition start_marker :: string where
  "start_marker = ''const dataCache = {''"

definition end_marker :: string where
  "end_marker = ''        };''"

definition start_idx :: "string \<Rightarrow> int" where
  "start_idx html_content = py_find html_content start_marker 0"

definition end_idx :: "string \<Rightarrow> int" where
  "end_idx html_content =
     py_find html_content end_marker (start_idx html_content) + int (length end_marker)"

definition new_data_cache :: "cache \<Rightarrow> string" where
  "new_data_cache data_cache =
     ''const dataCache = '' @ slice_to (json_dumps (json_of_cache data_cache) 12) (- 1) @ ''        };''"

text \<open>
  \<open>update_html_file\<close>: read \<open>index.html\<close> in text mode, locate the block, raise or splice,
  write in text mode. \<open>index_html\<close> is what the file holds; \<open>html_content\<close> is what \<open>f.read()\<close>
  returns for it. The file is opened for writing only after the check.
\<close>

definition update_html_file :: "cache \<Rightarrow> world \<Rightarrow> (error + unit) \<times> world" where
  "update_html_file data_cache w =
     (case index_html w of
        None \<Rightarrow> (Inl FileNotFoundError, w)
      | Some file_text \<Rightarrow>
          let html_content = universal_newlines file_text
          in if start_idx html_content = - 1 \<or> end_idx html_content = - 1
             then (Inl ValueError, w)
             else
               let new_html = slice_to html_content (start_idx html_content)
                     @ new_data_cache data_cache
                     @ slice_from html_content (end_idx html_content)
               in (Inr (), w\<lparr>index_html := Some (write_newlines new_html)\<rparr>))"

section \<open>The entry point\<close>

text \<open>\<open>main\<close>: the \<open>except\<close> clause prints the exception and raises it again.\<close>

definition main :: "datasource \<Rightarrow> date \<Rightarrow> world \<Rightarrow> (error + unit) \<times> world" where
  "main ds today w =
     (case query_all_data ds today w of
        (Inl e, w') \<Rightarrow> (Inl e, w')
      | (Inr data_cache, w') \<Rightarrow> update_html_file data_cache w')"

section \<open>Concrete data sources\<close>

text \<open>A data source in which no row matches any range.\<close>

definition empty_source :: datasource where
  "empty_source = \<lparr>connect_error = None,
     summary_result = (\<lambda>s e. Inr zero_rows_summary),
     buckets_result = (\<lambda>s e. Inr []),
     frequency_result = (\<lambda>s e. Inr []),
     volume_result = (\<lambda>s e. Inr [])\<rparr>"

text \<open>A data source whose summary query is rejected.\<close>

definition failing_source :: datasource where
  "failing_source = \<lparr>connect_error = None,
     summary_result = (\<lambda>s e. Inl ConnectorError),
     buckets_result = (\<lambda>s e. Inr []),
     frequency_result = (\<lambda>s e. Inr []),
     volume_result = (\<lambda>s e. Inr [])\<rparr>"

text \<open>
  A data source with three deposits of 100, 600 and 3000 by two users through two
  institutions, in every range; the bucket rows come back in an order that is not ascending.
\<close>

definition sample_source :: datasource where
  "sample_source = \<lparr>connect_error = None,
     summary_result = (\<lambda>s e. Inr (Some (Some 2, Some 3, Some (PyFloat ''3700.0''),
        Some (PyFloat ''1233.3333333333333'')))),
     buckets_result = (\<lambda>s e. Inr [(Some ''$2,500+'', Some 1), (Some ''$1-$250'', Some 1),
        (Some ''$500-$750'', Some 1)]),
     frequency_result = (\<lambda>s e. Inr [(Some ''ACME PAYROLL  '', Some 2, Some (PyFloat ''700.0'')),
        (Some ''GUSTO'', Some 1, Some (PyFloat ''3000.0''))]),
     volume_result = (\<lambda>s e. Inr [(Some ''GUSTO'', Some 1, Some (PyFloat ''3000.0'')),
        (Some ''ACME PAYROLL  '', Some 2, Some (PyFloat ''700.0''))])\<rparr>"

text \<open>The snapshot of any range of \<open>sample_source\<close>, and its cache on 3 November 2026.\<close>

definition sample_snapshot :: range_snapshot where
  "sample_snapshot = \<lparr>
     summary = \<lparr>uniqueUsers = 2, totalTransactions = 3, totalVolume = PyFloat ''3700.0'',
                avgDeposit = PyFloat ''1233.3333333333333''\<rparr>,
     buckets = [\<lparr>b_range = Some ''$1-$250'', b_count = 1\<rparr>,
                \<lparr>b_range = Some ''$500-$750'', b_count = 1\<rparr>,
                \<lparr>b_range = Some ''$2,500+'', b_count = 1\<rparr>],
     topByFrequency = [\<lparr>i_name = ''ACME PAYROLL'', i_count = 2, i_volume = PyFloat ''700.0''\<rparr>,
                       \<lparr>i_name = ''GUSTO'', i_count = 1, i_volume = PyFloat ''3000.0''\<rparr>],
     topByVolume = [\<lparr>i_name = ''GUSTO'', i_count = 1, i_volume = PyFloat ''3000.0''\<rparr>,
                    \<lparr>i_name = ''ACME PAYROLL'', i_count = 2, i_volume = PyFloat ''700.0''\<rparr>]\<rparr>"

definition sample_cache :: cache where
  "sample_cache = map (\<lambda>k. (k, sample_snapshot))
     [''2026-10-04_2026-11-03'', ''2026-09-04_2026-11-03'', ''2026-08-05_2026-11-03'',
      ''2025-08-01_2025-08-31'', ''2025-09-01_2025-09-30'', ''2025-10-01_2025-10-31'',
      ''2025-11-01_2025-11-30'']"

section \<open>Text mode\<close>

lemma write_newlines_posix: "write_newlines s = s"
  by (induction s) (simp_all add: write_newlines_def os_linesep_def)

lemma universal_newlines_without_cr:
  "CHR 0x0D \<notin> set s \<Longrightarrow> universal_newlines s = s"
  by (induction s rule: universal_newlines.induct) auto

lemma universal_newlines_no_cr: "CHR 0x0D \<notin> set (universal_newlines s)"
  by (induction s rule: universal_newlines.induct) simp_all

section \<open>Evaluating the planner\<close>

lemma nat_digits_small: "n < 10 \<Longrightarrow> nat_digits n = [digit_char n]"
  by (simp add: nat_digits.simps)

lemma nat_digits_step:
  "10 \<le> n \<Longrightarrow> nat_digits n = nat_digits (n div 10) @ [digit_char (n mod 10)]"
  by (subst nat_digits.simps) simp

lemmas calendar_defs = minus_days_def ymd2ord_def ord2ymd_def days_before_year_def
  days_before_month_def DAYS_BEFORE_MONTH_def DAYS_IN_MONTH_def is_leap_def
  strftime_ymd_def zero_pad_def nat_digits_small nat_digits_step digit_char_def Let_def

text \<open>The plan of 3 November 2026.\<close>

lemma get_date_ranges_2026_11_03:
  "get_date_ranges \<lparr>year = 2026, month = 11, day = 3\<rparr> =
     Inr [(''last_30'', ''2026-10-04'', ''2026-11-03''),
          (''last_60'', ''2026-09-04'', ''2026-11-03''),
          (''last_90'', ''2026-08-05'', ''2026-11-03''),
          (''august_2025'', ''2025-08-01'', ''2025-08-31''),
          (''september_2025'', ''2025-09-01'', ''2025-09-30''),
          (''october_2025'', ''2025-10-01'', ''2025-10-31''),
          (''november_2025'', ''2025-11-01'', ''2025-11-30'')]"
  by (simp add: get_date_ranges_def bind_err_def calendar_defs)

text \<open>The run of \<open>sample_source\<close> on that day.\<close>

lemma sample_source_connects: "connect_error sample_source = None"
  by (simp add: sample_source_def)

lemma snapshot_sample_source: "snapshot sample_source s e = Inr sample_snapshot"
  by (simp add: snapshot_def sample_source_def sample_snapshot_def query_summary_stats_def
      query_buckets_def query_top_by_frequency_def query_top_by_volume_def bind_err_def
      py_int_def py_float_def list_sort_def bucket_order_def institution_of_row_def
      py_str_def py_strip_def is_space_def)

lemma query_all_data_sample_source:
  "query_all_data sample_source \<lparr>year = 2026, month = 11, day = 3\<rparr> w
     = (Inr sample_cache, w\<lparr>conn := Closed\<rparr>)"
  by (simp add: query_all_data_def sample_source_connects get_date_ranges_2026_11_03
      snapshot_sample_source bind_err_def sample_cache_def)

section \<open>The summary of a range without rows\<close>

text \<open>
  Claim C2 says that a range with zero matching rows yields the summary
  \<open>{0, 0, 0.0, 0.0}\<close>. It does not: the sum and the average of no rows are \<open>NULL\<close>, and
  \<open>float(None)\<close> raises a \<open>TypeError\<close>.
\<close>

theorem query_summary_stats_zero_rows_raises:
  "query_summary_stats empty_source ''2025-08-01'' ''2025-08-31'' = Inl TypeError
   \<and> query_summary_stats empty_source ''2025-08-01'' ''2025-08-31''
       \<noteq> Inr \<lparr>uniqueUsers = 0, totalTransactions = 0, totalVolume = PyFloat ''0.0'',
                avgDeposit = PyFloat ''0.0''\<rparr>"
  by (simp add: query_summary_stats_def empty_source_def zero_rows_summary_def bind_err_def
      py_int_def py_float_def)

text \<open>
  Claim C2, amended: when the data source answers with a row, \<open>query_summary_stats\<close> returns
  a summary exactly when all four columns of the row are non-null, and every field of the
  summary is then the value of its column; on the row of a range with zero matching rows
  (counts 0, sum and average \<open>NULL\<close>) it raises a \<open>TypeError\<close>.
\<close>

theorem query_summary_stats_returns_iff_non_null:
  assumes "summary_result ds start_date end_date = Inr row"
  shows "(query_summary_stats ds start_date end_date = Inr st \<longleftrightarrow>
           row = Some (Some (uniqueUsers st), Some (totalTransactions st),
                       Some (totalVolume st), Some (avgDeposit st)))
       \<and> (row = zero_rows_summary \<longrightarrow>
            query_summary_stats ds start_date end_date = Inl TypeError)"
  using assms
  by (cases st)
     (auto simp: query_summary_stats_def bind_err_def py_int_def py_float_def
        zero_rows_summary_def split: option.splits prod.splits)

theorem query_summary_stats_returns_iff_non_null_witness:
  "summary_result sample_source ''2025-11-01'' ''2025-11-30''
     = Inr (Some (Some 2, Some 3, Some (PyFloat ''3700.0''), Some (PyFloat ''1233.3333333333333'')))
   \<and> query_summary_stats sample_source ''2025-11-01'' ''2025-11-30''
     = Inr \<lparr>uniqueUsers = 2, totalTransactions = 3, totalVolume = PyFloat ''3700.0'',
            avgDeposit = PyFloat ''1233.3333333333333''\<rparr>"
  using query_summary_stats_returns_iff_non_null
    [of sample_source "''2025-11-01''" "''2025-11-30''"
        "Some (Some 2, Some 3, Some (PyFloat ''3700.0''), Some (PyFloat ''1233.3333333333333''))"
        "\<lparr>uniqueUsers = 2, totalTransactions = 3, totalVolume = PyFloat ''3700.0'',
          avgDeposit = PyFloat ''1233.3333333333333''\<rparr>"]
  by (simp add: sample_source_def)

section \<open>The connection\<close>

text \<open>
  Claim C3 says that \<open>query_all_data\<close> releases the connection on the failure path too. It
  does not: when the first query is rejected the error leaves the function with the
  connection open.
\<close>

theorem query_all_data_failure_leaves_connection_open:
  "query_all_data failing_source \<lparr>year = 2026, month = 11, day = 3\<rparr>
      \<lparr>conn = NotConnected, index_html = None\<rparr>
   = (Inl ConnectorError, \<lparr>conn = Open, index_html = None\<rparr>)"
  by (simp add: query_all_data_def get_date_ranges_2026_11_03 bind_err_def snapshot_def
      query_summary_stats_def failing_source_def)

text \<open>
  Claim C3, amended: a run of \<open>query_all_data\<close> that returns the cache has closed the
  connection it opened; a run that raises after connecting leaves the connection open, and
  one that fails to connect leaves the connection state as it was. The artifact is not
  touched in any case.
\<close>

theorem query_all_data_connection:
  assumes "query_all_data ds today w = (r, w')"
  shows "index_html w' = index_html w
      \<and> (case r of
           Inr data_cache \<Rightarrow> conn w' = Closed
         | Inl e \<Rightarrow> conn w' = (if connect_error ds = None then Open else conn w))"
  using assms
  by (auto simp: query_all_data_def Let_def split: option.splits sum.splits)

theorem query_all_data_connection_witness:
  "query_all_data sample_source \<lparr>year = 2026, month = 11, day = 3\<rparr>
       \<lparr>conn = NotConnected, index_html = None\<rparr>
     = (Inr sample_cache, \<lparr>conn = Closed, index_html = None\<rparr>)
   \<and> conn \<lparr>conn = Closed, index_html = None\<rparr> = Closed"
  using query_all_data_connection
    [of sample_source "\<lparr>year = 2026, month = 11, day = 3\<rparr>"
        "\<lparr>conn = NotConnected, index_html = None\<rparr>" "Inr sample_cache"
        "\<lparr>conn = Closed, index_html = None\<rparr>"]
  by (simp add: query_all_data_sample_source)

section \<open>The injector on an artifact without the closing marker\<close>

text \<open>
  Claim C1 says that \<open>update_html_file\<close> raises and writes nothing when the closing marker
  is not found after the opening marker. On the artifact below, which has the opening
  marker and no closing marker, \<open>find\<close> returns \<open>-1\<close>, the length of the closing marker is
  added before the test, so \<open>end_idx\<close> is 9 and the test \<open>end_idx == -1\<close> fails; the
  function writes the new block followed by the old text from index 9 on.
\<close>

theorem update_html_file_writes_without_end_marker:
  "update_html_file data_cache
       \<lparr>conn = c, index_html = Some ''<script>const dataCache = {};</script>''\<rparr>
     = (Inr (), \<lparr>conn = c, index_html =
          Some (''<script>'' @ new_data_cache data_cache @ ''onst dataCache = {};</script>'')\<rparr>)"
  by (simp add: update_html_file_def start_idx_def end_idx_def py_find_def clamp_index_def
      start_marker_def end_marker_def slice_to_def slice_from_def write_newlines_posix)

section \<open>The order of the buckets\<close>

text \<open>
  The lower amount bound of each label, from the \<open>CASE\<close> expression of the bucket query:
  \<open>$1-$250\<close> starts at 0, and the \<open>ELSE\<close> branch \<open>$2,500+\<close> follows 2500.
\<close>

definition bucket_lower_bound :: "string \<Rightarrow> nat" where
  "bucket_lower_bound l =
     (if l = ''$1-$250'' then 0
      else if l = ''$250-$500'' then 250
      else if l = ''$500-$750'' then 500
      else if l = ''$750-$1,000'' then 750
      else if l = ''$1,000-$1,500'' then 1000
      else if l = ''$1,500-$2,500'' then 1500
      else 2500)"

text \<open>The position \<open>xs.index(x)\<close> returns when \<open>x\<close> is in \<open>xs\<close>.\<close>

definition first_index :: "'a list \<Rightarrow> 'a \<Rightarrow> nat" where
  "first_index xs x = length (takeWhile (\<lambda>y. y \<noteq> x) xs)"

text \<open>The dict built from a row with a label and a count.\<close>

definition bucket_of :: "string \<times> int \<Rightarrow> bucket" where
  "bucket_of p = \<lparr>b_range = Some (fst p), b_count = snd p\<rparr>"

definition bucket_rank :: "string \<Rightarrow> nat" where
  "bucket_rank l = first_index (map Some bucket_order) (Some l)"


section \<open>Errors, \<open>index\<close> and \<open>sort\<close>\<close>

lemma map_err_Inr: "(\<And>x. x \<in> set xs \<Longrightarrow> f x = Inr (g x)) \<Longrightarrow> map_err f xs = Inr (map g xs)"
  by (induction xs) (simp_all add: bind_err_def)

lemma map_err_Inl:
  assumes "\<exists>x\<in>set xs. f x = Inl e" and "\<And>x. x \<in> set xs \<Longrightarrow> f x = Inl e \<or> (\<exists>y. f x = Inr y)"
  shows "map_err f xs = Inl e"
  using assms
proof (induction xs)
  case Nil
  then show ?case by simp
next
  case (Cons a xs)
  show ?case
  proof (cases "f a")
    case (Inl e')
    with Cons.prems(2)[of a] show ?thesis by (simp add: bind_err_def)
  next
    case (Inr y)
    with Cons.prems have "\<exists>x\<in>set xs. f x = Inl e" by auto
    with Cons have "map_err f xs = Inl e" by simp
    with Inr show ?thesis by (simp add: bind_err_def)
  qed
qed

lemma map_err_Inr_iff: "map_err f xs = Inr ys \<Longrightarrow> x \<in> set xs \<Longrightarrow> \<exists>y. f x = Inr y"
  by (induction xs arbitrary: ys) (auto simp: bind_err_def split: sum.splits)

lemma list_index_mem: "x \<in> set xs \<Longrightarrow> list_index xs x = Inr (first_index xs x)"
  by (induction xs) (auto simp: first_index_def bind_err_def)

lemma list_index_not_mem: "x \<notin> set xs \<Longrightarrow> list_index xs x = Inl ValueError"
  by (induction xs) (auto simp: bind_err_def)

lemma first_index_nth: "x \<in> set xs \<Longrightarrow> xs ! first_index xs x = x \<and> first_index xs x < length xs"
  by (induction xs) (auto simp: first_index_def)

lemma first_index_inj: "x \<in> set xs \<Longrightarrow> y \<in> set xs \<Longrightarrow> first_index xs x = first_index xs y \<Longrightarrow> x = y"
  by (metis first_index_nth)

lemma insort_key_decorated:
  "\<forall>z\<in>set zs. fst z = f (snd z) \<Longrightarrow>
    map snd (insort_key fst (f x, x) zs) = insort_key f x (map snd zs)"
  by (induction zs) auto

lemma sort_key_decorated:
  "map snd (sort_key fst (map (\<lambda>x. (f x, x)) xs)) = sort_key f xs"
proof (induction xs)
  case Nil
  then show ?case by simp
next
  case (Cons a xs)
  have "\<forall>z\<in>set (sort_key fst (map (\<lambda>x. (f x, x)) xs)). fst z = f (snd z)"
    by auto
  then show ?case using Cons by (simp add: insort_key_decorated)
qed

lemma list_sort_total:
  assumes "\<And>x. x \<in> set xs \<Longrightarrow> f x = Inr (g x)"
  shows "list_sort f xs = Inr (sort_key g xs)"
proof -
  have "map_err f xs = Inr (map g xs)" using assms by (rule map_err_Inr)
  moreover have "zip (map g xs) xs = map (\<lambda>x. (g x, x)) xs"
    by (induction xs) simp_all
  ultimately show ?thesis
    by (simp add: list_sort_def bind_err_def sort_key_decorated)
qed


lemma bucket_lower_bound_rank:
  assumes "l \<in> set bucket_order"
  shows "bucket_lower_bound l =
     [0, 250, 500, 750, 1000, 1500, 2500] ! first_index (map Some bucket_order) (Some l)"
proof -
  from assms have "l = ''$1-$250'' \<or> l = ''$250-$500'' \<or> l = ''$500-$750''
      \<or> l = ''$750-$1,000'' \<or> l = ''$1,000-$1,500'' \<or> l = ''$1,500-$2,500''
      \<or> l = ''$2,500+''"
    by (simp add: bucket_order_def)
  then show ?thesis
    by (elim disjE) (simp_all add: bucket_order_def bucket_lower_bound_def first_index_def)
qed

lemma bucket_rank_mono:
  assumes "l \<in> set bucket_order" "l' \<in> set bucket_order"
    and "first_index (map Some bucket_order) (Some l) \<le> first_index (map Some bucket_order) (Some l')"
  shows "bucket_lower_bound l \<le> bucket_lower_bound l'"
proof -
  let ?bs = "[0, 250, 500, 750, 1000, 1500, 2500 :: nat]"
  have s: "sorted ?bs" by simp
  have "first_index (map Some bucket_order) (Some l') < length ?bs"
    using first_index_nth[of "Some l'" "map Some bucket_order"] assms(2)
    by (simp add: bucket_order_def)
  with s assms(3) have "?bs ! first_index (map Some bucket_order) (Some l)
      \<le> ?bs ! first_index (map Some bucket_order) (Some l')"
    by (rule sorted_nth_mono)
  then show ?thesis using assms(1,2) by (simp only: bucket_lower_bound_rank)
qed

lemma insort_key_map: "insort_key f (g x) (map g ys) = map g (insort_key (\<lambda>y. f (g y)) x ys)"
  by (induction ys) auto

lemma sort_key_map: "sort_key f (map g xs) = map g (sort_key (\<lambda>y. f (g y)) xs)"
  by (induction xs) (auto simp: insort_key_map)

lemma sorted_map_transfer:
  assumes "sorted (map (f :: 'a \<Rightarrow> nat) xs)"
    and "\<And>x y. x \<in> set xs \<Longrightarrow> y \<in> set xs \<Longrightarrow> f x \<le> f y \<Longrightarrow> g x \<le> g y"
  shows "sorted (map (g :: 'a \<Rightarrow> nat) xs)"
proof -
  from assms(1) have "sorted_wrt (\<lambda>x y. f x \<le> f y) xs" by (simp add: sorted_map)
  then have "sorted_wrt (\<lambda>x y. g x \<le> g y) xs"
    by (rule sorted_wrt_mono_rel[rotated]) (use assms(2) in blast)
  then show ?thesis by (simp add: sorted_map)
qed

lemma bind_err_simps: "bind_err (Inr x) f = f x" "bind_err (Inl e) f = Inl e"
  by (simp_all add: bind_err_def)

lemma buckets_comprehension:
  "map_err (\<lambda>(b, c). bind_err (py_int c) (\<lambda>n. Inr \<lparr>b_range = b, b_count = n\<rparr>))
     (map (\<lambda>p. (Some (fst p), Some (snd p))) lcs) = Inr (map bucket_of lcs)"
  by (induction lcs) (simp_all add: bind_err_def py_int_def bucket_of_def)

lemma query_buckets_eq:
  assumes "buckets_result ds s e = Inr (map (\<lambda>p. (Some (fst p), Some (snd p))) lcs)"
    and "fst ` set lcs \<subseteq> set bucket_order"
  shows "query_buckets ds s e = Inr (map bucket_of (sort_key (\<lambda>p. bucket_rank (fst p)) lcs))"
proof -
  have "list_sort (\<lambda>x. list_index (map Some bucket_order) (b_range x)) (map bucket_of lcs)
      = Inr (sort_key (\<lambda>x. first_index (map Some bucket_order) (b_range x)) (map bucket_of lcs))"
  proof (rule list_sort_total)
    fix x assume "x \<in> set (map bucket_of lcs)"
    then obtain p where "p \<in> set lcs" "x = bucket_of p" by auto
    with assms(2) have "b_range x \<in> set (map Some bucket_order)"
      by (auto simp: bucket_of_def)
    then show "list_index (map Some bucket_order) (b_range x)
        = Inr (first_index (map Some bucket_order) (b_range x))"
      by (rule list_index_mem)
  qed
  then show ?thesis
    using assms(1)
    by (simp add: query_buckets_def bind_err_simps buckets_comprehension sort_key_map
        bucket_of_def bucket_rank_def)
qed


section \<open>The buckets come back in the fixed order\<close>

text \<open>
  Claim C7: when every row of the data source has a label of the fixed list and a count,
  \<open>query_buckets\<close> returns the buckets of exactly these rows, ascending by the lower
  amount bound of their labels, whatever the order of the rows was: for every label the
  rows with that label are in the result as they were in the input, so nothing is added
  and nothing is lost.
\<close>

theorem query_buckets_sorted:
  assumes "buckets_result ds s e = Inr (map (\<lambda>p. (Some (fst p), Some (snd p))) lcs)"
    and "fst ` set lcs \<subseteq> set bucket_order"
  shows "\<exists>out. query_buckets ds s e = Inr (map bucket_of out)
          \<and> sorted (map (\<lambda>p. bucket_lower_bound (fst p)) out)
          \<and> (\<forall>l. filter (\<lambda>p. fst p = l) out = filter (\<lambda>p. fst p = l) lcs)"
proof -
  let ?r = "\<lambda>p :: string \<times> int. bucket_rank (fst p)"
  let ?out = "sort_key ?r lcs"
  have mem: "\<And>p. p \<in> set lcs \<Longrightarrow> fst p \<in> set bucket_order" using assms(2) by auto
  have "sorted (map ?r ?out)" by (rule sorted_sort_key)
  then have srt: "sorted (map (\<lambda>p. bucket_lower_bound (fst p)) ?out)"
    by (rule sorted_map_transfer) (auto intro!: bucket_rank_mono dest: mem simp: bucket_rank_def)
  have stable: "filter (\<lambda>p. fst p = l) ?out = filter (\<lambda>p. fst p = l) lcs" for l
  proof (cases "l \<in> set bucket_order")
    case True
    have eq: "(fst p = l) = (?r p = bucket_rank l)" if "p \<in> set lcs" for p
      using first_index_inj[of "Some (fst p)" "map Some bucket_order" "Some l"] mem[OF that] True
      by (auto simp: bucket_rank_def)
    have "filter (\<lambda>p. fst p = l) ?out = filter (\<lambda>p. ?r p = bucket_rank l) ?out"
      by (rule filter_cong) (auto simp: eq)
    also have "\<dots> = filter (\<lambda>p. ?r p = bucket_rank l) lcs" by (rule sort_key_stable)
    also have "\<dots> = filter (\<lambda>p. fst p = l) lcs"
      by (rule filter_cong) (auto simp: eq)
    finally show ?thesis .
  next
    case False
    then have "\<And>p. p \<in> set lcs \<Longrightarrow> fst p \<noteq> l" using mem by auto
    then show ?thesis by (simp add: filter_empty_conv[THEN iffD2])
  qed
  from query_buckets_eq[OF assms] srt stable show ?thesis by blast
qed


theorem query_buckets_sorted_witness:
  "buckets_result sample_source ''2025-11-01'' ''2025-11-30''
     = Inr (map (\<lambda>p. (Some (fst p), Some (snd p)))
         [(''$2,500+'', 1), (''$1-$250'', 1), (''$500-$750'', 1)])
   \<and> fst ` set [(''$2,500+'', 1 :: int), (''$1-$250'', 1), (''$500-$750'', 1)] \<subseteq> set bucket_order
   \<and> (\<exists>out. query_buckets sample_source ''2025-11-01'' ''2025-11-30'' = Inr (map bucket_of out)
          \<and> sorted (map (\<lambda>p. bucket_lower_bound (fst p)) out)
          \<and> (\<forall>l. filter (\<lambda>p. fst p = l) out
                = filter (\<lambda>p. fst p = l) [(''$2,500+'', 1), (''$1-$250'', 1), (''$500-$750'', 1)]))"
proof -
  have h1: "buckets_result sample_source ''2025-11-01'' ''2025-11-30''
     = Inr (map (\<lambda>p. (Some (fst p), Some (snd p)))
         [(''$2,500+'', 1), (''$1-$250'', 1), (''$500-$750'', 1)])"
    by (simp add: sample_source_def)
  have h2: "fst ` set [(''$2,500+'', 1 :: int), (''$1-$250'', 1), (''$500-$750'', 1)]
      \<subseteq> set bucket_order"
    by (simp add: bucket_order_def)
  from query_buckets_sorted[OF h1 h2] h1 h2 show ?thesis by blast
qed

section \<open>A label outside the fixed list\<close>

lemma buckets_comprehension_rows:
  assumes "\<forall>r\<in>set rows. snd r \<noteq> None"
  shows "map_err (\<lambda>(b, c). bind_err (py_int c) (\<lambda>n. Inr \<lparr>b_range = b, b_count = n\<rparr>)) rows
     = Inr (map (\<lambda>r. \<lparr>b_range = fst r, b_count = the (snd r)\<rparr>) rows)"
  using assms by (induction rows) (auto simp: bind_err_def py_int_def)

text \<open>
  Claim C10: \<open>query_buckets\<close> returns a list only if every label of the result is one of
  the seven fixed labels. When the counts are not null, it returns a list exactly when all
  labels are in \<open>bucket_order\<close>, and a single row with another label (or a null label)
  makes \<open>bucket_order.index\<close> raise a \<open>ValueError\<close>.
\<close>

theorem query_buckets_total_iff_labels_known:
  assumes "buckets_result ds start_date end_date = Inr rows"
    and "\<forall>r\<in>set rows. snd r \<noteq> None"
  shows "((\<exists>bs. query_buckets ds start_date end_date = Inr bs)
           \<longleftrightarrow> (\<forall>r\<in>set rows. fst r \<in> Some ` set bucket_order))
       \<and> ((\<exists>r\<in>set rows. fst r \<notin> Some ` set bucket_order)
            \<longrightarrow> query_buckets ds start_date end_date = Inl ValueError)"
proof -
  let ?key = "\<lambda>x. list_index (map Some bucket_order) (b_range x)"
  let ?bs = "map (\<lambda>r. \<lparr>b_range = fst r, b_count = the (snd r)\<rparr>) rows"
  have q: "query_buckets ds start_date end_date = list_sort ?key ?bs"
    using assms(1) buckets_comprehension_rows[OF assms(2)]
    by (simp add: query_buckets_def bind_err_simps)
  show ?thesis
  proof (cases "\<forall>r\<in>set rows. fst r \<in> Some ` set bucket_order")
    case True
    have "list_sort ?key ?bs = Inr (sort_key (\<lambda>x. first_index (map Some bucket_order) (b_range x)) ?bs)"
    proof (rule list_sort_total)
      fix x assume "x \<in> set ?bs"
      with True have "b_range x \<in> set (map Some bucket_order)" by auto
      then show "?key x = Inr (first_index (map Some bucket_order) (b_range x))"
        by (rule list_index_mem)
    qed
    with q True show ?thesis by simp
  next
    case False
    then obtain r where r: "r \<in> set rows" "fst r \<notin> Some ` set bucket_order" by blast
    have "map_err ?key ?bs = Inl ValueError"
    proof (rule map_err_Inl)
      from r show "\<exists>x\<in>set ?bs. ?key x = Inl ValueError"
        by (auto intro!: bexI[of _ r] list_index_not_mem)
    next
      fix x assume "x \<in> set ?bs"
      show "?key x = Inl ValueError \<or> (\<exists>y. ?key x = Inr y)"
        using list_index_mem[of "b_range x" "map Some bucket_order"]
          list_index_not_mem[of "b_range x" "map Some bucket_order"]
        by blast
    qed
    then have "list_sort ?key ?bs = Inl ValueError"
      by (simp add: list_sort_def bind_err_simps)
    with q False show ?thesis by simp
  qed
qed

theorem query_buckets_total_iff_labels_known_witness:
  "query_buckets (sample_source\<lparr>buckets_result := \<lambda>s e. Inr [(Some ''$1-$250'', Some 4), (Some ''$250+'', Some 1)]\<rparr>)
      ''2025-11-01'' ''2025-11-30'' = Inl ValueError"
  using query_buckets_total_iff_labels_known
    [of "sample_source\<lparr>buckets_result := \<lambda>s e. Inr [(Some ''$1-$250'', Some 4), (Some ''$250+'', Some 1)]\<rparr>"
        "''2025-11-01''" "''2025-11-30''" "[(Some ''$1-$250'', Some 4), (Some ''$250+'', Some 1)]"]
  by (simp add: bucket_order_def)

section \<open>The keys of the cache\<close>

text \<open>The cache key of a planned range \<open>(name, start, end)\<close>.\<close>

definition range_key :: "string \<times> string \<times> string \<Rightarrow> string" where
  "range_key r = fst (snd r) @ ''_'' @ snd (snd r)"

lemma digit_char_no_underscore: "d < 10 \<Longrightarrow> digit_char d \<noteq> CHR ''_''"
proof -
  assume "d < 10"
  then have "d = 0 \<or> d = 1 \<or> d = 2 \<or> d = 3 \<or> d = 4 \<or> d = 5 \<or> d = 6 \<or> d = 7 \<or> d = 8 \<or> d = 9"
    by arith
  then show ?thesis by (elim disjE) (simp_all add: digit_char_def)
qed

lemma nat_digits_no_underscore: "CHR ''_'' \<notin> set (nat_digits n)"
proof (induction n rule: nat_digits.induct)
  case (1 n)
  show ?case
  proof (cases "n < 10")
    case True
    then show ?thesis using digit_char_no_underscore[of n] by (simp add: nat_digits_small)
  next
    case False
    then have "CHR ''_'' \<notin> set (nat_digits (n div 10))" by (rule "1.IH")
    moreover have "digit_char (n mod 10) \<noteq> CHR ''_''"
      by (rule digit_char_no_underscore) simp
    ultimately show ?thesis using False by (simp add: nat_digits_step)
  qed
qed

lemma zero_pad_no_underscore: "CHR ''_'' \<notin> set (zero_pad w n)"
  using nat_digits_no_underscore[of n] by (simp add: zero_pad_def)

lemma strftime_ymd_no_underscore: "CHR ''_'' \<notin> set (strftime_ymd d)"
  by (simp add: strftime_ymd_def zero_pad_no_underscore)

lemma key_split:
  assumes "CHR ''_'' \<notin> set s" "CHR ''_'' \<notin> set s'" "s @ ''_'' @ e = s' @ ''_'' @ e'"
  shows "s = s' \<and> e = e'"
proof -
  let ?P = "\<lambda>c. c \<noteq> CHR ''_''"
  have "takeWhile ?P (s @ ''_'' @ e) = s @ takeWhile ?P (''_'' @ e)"
    by (rule takeWhile_append2) (use assms(1) in auto)
  moreover have "takeWhile ?P (s' @ ''_'' @ e') = s' @ takeWhile ?P (''_'' @ e')"
    by (rule takeWhile_append2) (use assms(2) in auto)
  ultimately have "s = s'" using assms(3) by simp
  with assms(3) show ?thesis by simp
qed

lemma get_date_ranges_Inr:
  assumes "get_date_ranges today = Inr date_ranges"
  shows "\<exists>d30 d60 d90. date_ranges =
       [(''last_30'', strftime_ymd d30, strftime_ymd today),
        (''last_60'', strftime_ymd d60, strftime_ymd today),
        (''last_90'', strftime_ymd d90, strftime_ymd today),
        (''august_2025'', ''2025-08-01'', ''2025-08-31''),
        (''september_2025'', ''2025-09-01'', ''2025-09-30''),
        (''october_2025'', ''2025-10-01'', ''2025-10-31''),
        (''november_2025'', ''2025-11-01'', ''2025-11-30'')]"
proof (cases "minus_days today 30")
  case Inl
  with assms show ?thesis by (simp add: get_date_ranges_def bind_err_simps)
next
  case d30: (Inr d30)
  show ?thesis
  proof (cases "minus_days today 60")
    case Inl
    with assms d30 show ?thesis by (simp add: get_date_ranges_def bind_err_simps)
  next
    case d60: (Inr d60)
    show ?thesis
    proof (cases "minus_days today 90")
      case Inl
      with assms d30 d60 show ?thesis by (simp add: get_date_ranges_def bind_err_simps)
    next
      case d90: (Inr d90)
      from assms d30 d60 d90 have "date_ranges =
       [(''last_30'', strftime_ymd d30, strftime_ymd today),
        (''last_60'', strftime_ymd d60, strftime_ymd today),
        (''last_90'', strftime_ymd d90, strftime_ymd today),
        (''august_2025'', ''2025-08-01'', ''2025-08-31''),
        (''september_2025'', ''2025-09-01'', ''2025-09-30''),
        (''october_2025'', ''2025-10-01'', ''2025-10-31''),
        (''november_2025'', ''2025-11-01'', ''2025-11-30'')]"
        by (simp add: get_date_ranges_def bind_err_simps)
      then show ?thesis by blast
    qed
  qed
qed

lemma get_date_ranges_starts:
  assumes "get_date_ranges today = Inr date_ranges" "r \<in> set date_ranges"
  shows "CHR ''_'' \<notin> set (fst (snd r))"
proof -
  from get_date_ranges_Inr[OF assms(1)] obtain d30 d60 d90 where "date_ranges =
       [(''last_30'', strftime_ymd d30, strftime_ymd today),
        (''last_60'', strftime_ymd d60, strftime_ymd today),
        (''last_90'', strftime_ymd d90, strftime_ymd today),
        (''august_2025'', ''2025-08-01'', ''2025-08-31''),
        (''september_2025'', ''2025-09-01'', ''2025-09-30''),
        (''october_2025'', ''2025-10-01'', ''2025-10-31''),
        (''november_2025'', ''2025-11-01'', ''2025-11-30'')]" by blast
  with assms(2) have "fst (snd r) = strftime_ymd d30 \<or> fst (snd r) = strftime_ymd d60
      \<or> fst (snd r) = strftime_ymd d90 \<or> fst (snd r) = ''2025-08-01''
      \<or> fst (snd r) = ''2025-09-01'' \<or> fst (snd r) = ''2025-10-01''
      \<or> fst (snd r) = ''2025-11-01''"
    by (simp only: set_simps insert_iff empty_iff) (elim disjE; simp only: fst_conv snd_conv simp_thms)
  then show ?thesis
    by (elim disjE) (simp_all add: strftime_ymd_no_underscore)
qed

lemma get_date_ranges_august:
  assumes "get_date_ranges today = Inr date_ranges"
  shows "(''august_2025'', ''2025-08-01'', ''2025-08-31'') \<in> set date_ranges"
proof -
  from get_date_ranges_Inr[OF assms(1)] obtain d30 d60 d90 where "date_ranges =
       [(''last_30'', strftime_ymd d30, strftime_ymd today),
        (''last_60'', strftime_ymd d60, strftime_ymd today),
        (''last_90'', strftime_ymd d90, strftime_ymd today),
        (''august_2025'', ''2025-08-01'', ''2025-08-31''),
        (''september_2025'', ''2025-09-01'', ''2025-09-30''),
        (''october_2025'', ''2025-10-01'', ''2025-10-31''),
        (''november_2025'', ''2025-11-01'', ''2025-11-30'')]" by blast
  then show ?thesis by (simp only: set_simps insert_iff simp_thms)
qed

lemma build_cache_Cons:
  assumes "build_cache ds ((n, s, e) # rs) c0 = Inr c"
  shows "\<exists>snap. snapshot ds s e = Inr snap
     \<and> build_cache ds rs (AList.update (s @ ''_'' @ e) snap c0) = Inr c"
  using assms by (cases "snapshot ds s e") (simp_all add: bind_err_simps)

lemma range_key_simp: "range_key (n, s, e) = s @ ''_'' @ e"
  by (simp add: range_key_def)

lemma build_cache_keys:
  "build_cache ds rs c0 = Inr c \<Longrightarrow> fst ` set c = fst ` set c0 \<union> range_key ` set rs"
proof (induction rs arbitrary: c0)
  case Nil
  then show ?case by simp
next
  case (Cons r rs)
  obtain n s e where r: "r = (n, s, e)" by (cases r)
  from Cons.prems r obtain snap where
    "build_cache ds rs (AList.update (s @ ''_'' @ e) snap c0) = Inr c"
    using build_cache_Cons by blast
  from Cons.IH[OF this] have "fst ` set c = insert (range_key r) (fst ` set c0) \<union> range_key ` set rs"
    by (simp only: dom_update r range_key_simp insert_is_Un[symmetric])
  then show ?case by (simp only: list.set image_insert) blast
qed

lemma build_cache_distinct:
  "build_cache ds rs c0 = Inr c \<Longrightarrow> distinct (map fst c0) \<Longrightarrow> distinct (map fst c)"
proof (induction rs arbitrary: c0)
  case Nil
  then show ?case by simp
next
  case (Cons r rs)
  obtain n s e where r: "r = (n, s, e)" by (cases r)
  from Cons.prems r obtain snap where
    "build_cache ds rs (AList.update (s @ ''_'' @ e) snap c0) = Inr c"
    using build_cache_Cons by blast
  from Cons.IH[OF this] Cons.prems(2) show ?case by (simp only: distinct_update)
qed

lemma build_cache_other:
  "build_cache ds rs c0 = Inr c \<Longrightarrow> k \<notin> range_key ` set rs \<Longrightarrow> map_of c k = map_of c0 k"
proof (induction rs arbitrary: c0)
  case Nil
  then show ?case by simp
next
  case (Cons r rs)
  obtain n s e where r: "r = (n, s, e)" by (cases r)
  from Cons.prems r obtain snap where
    rest: "build_cache ds rs (AList.update (s @ ''_'' @ e) snap c0) = Inr c"
    using build_cache_Cons by blast
  from Cons.prems(2) have k: "k \<noteq> range_key r" "k \<notin> range_key ` set rs" by simp_all
  from Cons.IH[OF rest k(2)] have "map_of c k = map_of (AList.update (range_key r) snap c0) k"
    by (simp only: r range_key_simp)
  also have "\<dots> = map_of c0 k" using k(1) by (simp add: update_conv')
  finally show ?case .
qed

lemma build_cache_entry:
  assumes "build_cache ds rs c0 = Inr c"
    and "\<And>a b. a \<in> set rs \<Longrightarrow> b \<in> set rs \<Longrightarrow> range_key a = range_key b \<Longrightarrow> snd a = snd b"
    and "(n, s, e) \<in> set rs"
  shows "\<exists>snap. snapshot ds s e = Inr snap \<and> map_of c (range_key (n, s, e)) = Some snap"
  using assms
proof (induction rs arbitrary: c0 n s e)
  case Nil
  then show ?case by simp
next
  case (Cons r rs)
  obtain n0 s0 e0 where r: "r = (n0, s0, e0)" by (cases r)
  from Cons.prems(1) r obtain snap0 where snap0: "snapshot ds s0 e0 = Inr snap0"
    and rest: "build_cache ds rs (AList.update (s0 @ ''_'' @ e0) snap0 c0) = Inr c"
    using build_cache_Cons by blast
  have inj: "snd a = snd b" if "a \<in> set rs" "b \<in> set rs" "range_key a = range_key b" for a b
  proof (rule Cons.prems(2))
    show "a \<in> set (r # rs)" using that(1) by (rule list.set_intros(2))
    show "b \<in> set (r # rs)" using that(2) by (rule list.set_intros(2))
    show "range_key a = range_key b" by (rule that(3))
  qed
  have key_eq: "range_key (n, s, e) = range_key (m, s, e)" for m
    by (simp only: range_key_simp)
  show ?case
  proof (cases "(n, s, e) \<in> set rs")
    case True
    from rest inj True show ?thesis by (rule Cons.IH)
  next
    case False
    with Cons.prems(3) have "(n, s, e) = r" by (metis set_ConsD)
    with r have eq: "s = s0" "e = e0" by blast+
    show ?thesis
    proof (cases "range_key r \<in> range_key ` set rs")
      case True
      then obtain r' where r': "r' \<in> set rs" "range_key r = range_key r'" by blast
      obtain n' s' e' where r'eq: "r' = (n', s', e')" by (cases r')
      have "snd r = snd r'"
      proof (rule Cons.prems(2))
        show "r \<in> set (r # rs)" by (rule list.set_intros(1))
        show "r' \<in> set (r # rs)" using r'(1) by (rule list.set_intros(2))
        show "range_key r = range_key r'" by (rule r'(2))
      qed
      then have "(s0, e0) = (s', e')" by (simp only: r r'eq snd_conv)
      then have "(n', s0, e0) \<in> set rs" using r'(1) r'eq by blast
      with rest inj have "\<exists>snap. snapshot ds s0 e0 = Inr snap \<and> map_of c (range_key (n', s0, e0)) = Some snap"
        by (rule Cons.IH)
      then show ?thesis using key_eq[of n'] eq by metis
    next
      case False
      from build_cache_other[OF rest False] have "map_of c (range_key r) = Some snap0"
        by (simp only: r range_key_simp update_conv' fun_upd_same)
      then have "map_of c (range_key (n, s, e)) = Some snap0"
        using eq r key_eq[of n0] by metis
      with snap0 eq show ?thesis by blast
    qed
  qed
qed

lemma query_all_data_Inr:
  assumes "query_all_data ds today w = (Inr data_cache, w')"
  shows "connect_error ds = None \<and> w' = w\<lparr>conn := Closed\<rparr>
     \<and> (\<exists>date_ranges. get_date_ranges today = Inr date_ranges
           \<and> build_cache ds date_ranges [] = Inr data_cache)"
proof (cases "connect_error ds")
  case (Some e)
  with assms show ?thesis by (simp add: query_all_data_def)
next
  case None
  show ?thesis
  proof (cases "get_date_ranges today")
    case (Inl e)
    with assms None show ?thesis by (simp add: query_all_data_def bind_err_simps)
  next
    case (Inr date_ranges)
    with assms None show ?thesis
      by (cases "build_cache ds date_ranges []") (simp_all add: query_all_data_def bind_err_simps)
  qed
qed


lemma date_ranges_keys_inj:
  assumes "get_date_ranges today = Inr date_ranges"
    and "a \<in> set date_ranges" "b \<in> set date_ranges" "range_key a = range_key b"
  shows "snd a = snd b"
proof -
  have "fst (snd a) = fst (snd b) \<and> snd (snd a) = snd (snd b)"
  proof (rule key_split)
    show "CHR ''_'' \<notin> set (fst (snd a))" using assms(1,2) by (rule get_date_ranges_starts)
    show "CHR ''_'' \<notin> set (fst (snd b))" using assms(1,3) by (rule get_date_ranges_starts)
    show "fst (snd a) @ ''_'' @ snd (snd a) = fst (snd b) @ ''_'' @ snd (snd b)"
      using assms(4) by (simp only: range_key_def)
  qed
  then show ?thesis by (simp add: prod_eq_iff)
qed

text \<open>
  Claim C8: in the cache that \<open>query_all_data\<close> returns, the entry of every planned
  range with start text \<open>s\<close> and end text \<open>e\<close> stands under the key \<open>s_e\<close> and is the
  snapshot of that range; the keys of the cache are exactly these, each once; and the
  range of August 2025 stands under \<open>2025-08-01_2025-08-31\<close>.
\<close>

theorem cache_keyed_by_range:
  assumes "query_all_data ds today w = (Inr data_cache, w')"
  shows "\<exists>date_ranges. get_date_ranges today = Inr date_ranges
     \<and> fst ` set data_cache = (\<lambda>r. fst (snd r) @ ''_'' @ snd (snd r)) ` set date_ranges
     \<and> distinct (map fst data_cache)
     \<and> (\<forall>r\<in>set date_ranges. \<exists>snap. snapshot ds (fst (snd r)) (snd (snd r)) = Inr snap
           \<and> map_of data_cache (fst (snd r) @ ''_'' @ snd (snd r)) = Some snap)
     \<and> (\<exists>snap. snapshot ds ''2025-08-01'' ''2025-08-31'' = Inr snap
           \<and> map_of data_cache ''2025-08-01_2025-08-31'' = Some snap)"
proof -
  from query_all_data_Inr[OF assms] obtain date_ranges where
    dr: "get_date_ranges today = Inr date_ranges" and bc: "build_cache ds date_ranges [] = Inr data_cache"
    by blast
  have inj: "\<And>a b. a \<in> set date_ranges \<Longrightarrow> b \<in> set date_ranges \<Longrightarrow> range_key a = range_key b
      \<Longrightarrow> snd a = snd b"
    using dr by (rule date_ranges_keys_inj)
  have keys: "fst ` set data_cache = (\<lambda>r. fst (snd r) @ ''_'' @ snd (snd r)) ` set date_ranges"
    using build_cache_keys[OF bc] by (simp add: range_key_def[abs_def])
  have dist: "distinct (map fst data_cache)"
    using bc by (rule build_cache_distinct) simp
  have entry: "\<exists>snap. snapshot ds (fst (snd r)) (snd (snd r)) = Inr snap
           \<and> map_of data_cache (fst (snd r) @ ''_'' @ snd (snd r)) = Some snap"
    if "r \<in> set date_ranges" for r
  proof -
    from that have "(fst r, fst (snd r), snd (snd r)) \<in> set date_ranges" by simp
    with bc inj have "\<exists>snap. snapshot ds (fst (snd r)) (snd (snd r)) = Inr snap
        \<and> map_of data_cache (range_key (fst r, fst (snd r), snd (snd r))) = Some snap"
      by (rule build_cache_entry)
    then show ?thesis by (simp only: range_key_simp)
  qed
  have "\<exists>snap. snapshot ds (fst (snd (''august_2025'', ''2025-08-01'', ''2025-08-31'')))
             (snd (snd (''august_2025'', ''2025-08-01'', ''2025-08-31''))) = Inr snap
           \<and> map_of data_cache (fst (snd (''august_2025'', ''2025-08-01'', ''2025-08-31'')) @ ''_''
               @ snd (snd (''august_2025'', ''2025-08-01'', ''2025-08-31''))) = Some snap"
    using get_date_ranges_august[OF dr] by (rule entry)
  then have aug: "\<exists>snap. snapshot ds ''2025-08-01'' ''2025-08-31'' = Inr snap
           \<and> map_of data_cache ''2025-08-01_2025-08-31'' = Some snap"
    by simp
  from dr keys dist entry aug show ?thesis by blast
qed

theorem cache_keyed_by_range_witness:
  "query_all_data sample_source \<lparr>year = 2026, month = 11, day = 3\<rparr>
       \<lparr>conn = NotConnected, index_html = None\<rparr>
     = (Inr sample_cache, \<lparr>conn = Closed, index_html = None\<rparr>)
   \<and> (\<exists>snap. snapshot sample_source ''2025-08-01'' ''2025-08-31'' = Inr snap
         \<and> map_of sample_cache ''2025-08-01_2025-08-31'' = Some snap)"
proof -
  have run: "query_all_data sample_source \<lparr>year = 2026, month = 11, day = 3\<rparr>
       \<lparr>conn = NotConnected, index_html = None\<rparr>
     = (Inr sample_cache, \<lparr>conn = Closed, index_html = None\<rparr>)"
    by (simp add: query_all_data_sample_source)
  from cache_keyed_by_range[OF run] run show ?thesis by blast
qed

section \<open>A failed query leaves the artifact alone\<close>


section \<open>Searching a text\<close>

lemma find_at_char:
  "(find_at sub cs i = - 1 \<and> (\<forall>k\<le>length cs. \<not> prefix sub (drop k cs)))
   \<or> (\<exists>k\<le>length cs. find_at sub cs i = int (i + k) \<and> prefix sub (drop k cs)
         \<and> (\<forall>j<k. \<not> prefix sub (drop j cs)))"
proof (induction cs arbitrary: i)
  case Nil
  then show ?case by auto
next
  case (Cons c cs)
  show ?case
  proof (cases "prefix sub (c # cs)")
    case True
    then have "find_at sub (c # cs) i = int (i + 0) \<and> prefix sub (drop 0 (c # cs))
        \<and> (\<forall>j<0::nat. \<not> prefix sub (drop j (c # cs)))" by simp
    then show ?thesis by blast
  next
    case False
    then have step: "find_at sub (c # cs) i = find_at sub cs (Suc i)" by simp
    from Cons.IH[of "Suc i"] show ?thesis
    proof
      assume a: "find_at sub cs (Suc i) = - 1 \<and> (\<forall>k\<le>length cs. \<not> prefix sub (drop k cs))"
      have "\<not> prefix sub (drop k (c # cs))" if "k \<le> length (c # cs)" for k
        using that a False by (cases k) auto
      with a step show ?thesis by auto
    next
      assume "\<exists>k\<le>length cs. find_at sub cs (Suc i) = int (Suc i + k) \<and> prefix sub (drop k cs)
         \<and> (\<forall>j<k. \<not> prefix sub (drop j cs))"
      then obtain k where k: "k \<le> length cs" "find_at sub cs (Suc i) = int (Suc i + k)"
        "prefix sub (drop k cs)" "\<forall>j<k. \<not> prefix sub (drop j cs)" by blast
      have "\<not> prefix sub (drop j (c # cs))" if "j < Suc k" for j
        using that k(4) False by (cases j) auto
      with k step have "Suc k \<le> length (c # cs) \<and> find_at sub (c # cs) i = int (i + Suc k)
          \<and> prefix sub (drop (Suc k) (c # cs)) \<and> (\<forall>j<Suc k. \<not> prefix sub (drop j (c # cs)))"
        by simp
      then show ?thesis by blast
    qed
  qed
qed

text \<open>What \<open>find\<close> returns, for a start index that is not negative.\<close>

lemma py_find_char:
  assumes "b \<le> length s"
  shows "(py_find s sub (int b) = - 1 \<and> (\<forall>j. b \<le> j \<and> j \<le> length s \<longrightarrow> \<not> prefix sub (drop j s)))
   \<or> (\<exists>p. py_find s sub (int b) = int p \<and> b \<le> p \<and> p \<le> length s \<and> prefix sub (drop p s)
         \<and> (\<forall>j. b \<le> j \<and> j < p \<longrightarrow> \<not> prefix sub (drop j s)))"
proof -
  have pf: "py_find s sub (int b) = find_at sub (drop b s) b"
    using assms by (simp add: py_find_def clamp_index_def)
  from find_at_char[of sub "drop b s" b] show ?thesis
  proof
    assume a: "find_at sub (drop b s) b = - 1 \<and> (\<forall>k\<le>length (drop b s). \<not> prefix sub (drop k (drop b s)))"
    have "\<not> prefix sub (drop j s)" if "b \<le> j" "j \<le> length s" for j
    proof -
      from that have "j - b \<le> length (drop b s)" by simp
      with a have "\<not> prefix sub (drop (j - b) (drop b s))" by blast
      with that show ?thesis by simp
    qed
    with a pf show ?thesis by auto
  next
    assume "\<exists>k\<le>length (drop b s). find_at sub (drop b s) b = int (b + k) \<and> prefix sub (drop k (drop b s))
         \<and> (\<forall>j<k. \<not> prefix sub (drop j (drop b s)))"
    then obtain k where k: "k \<le> length (drop b s)" "find_at sub (drop b s) b = int (b + k)"
      "prefix sub (drop k (drop b s))" "\<forall>j<k. \<not> prefix sub (drop j (drop b s))" by blast
    have "\<not> prefix sub (drop j s)" if "b \<le> j" "j < b + k" for j
    proof -
      from that have "j - b < k" by simp
      with k(4) have "\<not> prefix sub (drop (j - b) (drop b s))" by blast
      with that show ?thesis by simp
    qed
    moreover from k(3) have "prefix sub (drop (b + k) s)" by (simp add: add.commute)
    moreover from k(1) assms have "b + k \<le> length s" by simp
    ultimately have "py_find s sub (int b) = int (b + k) \<and> b \<le> b + k \<and> b + k \<le> length s
        \<and> prefix sub (drop (b + k) s) \<and> (\<forall>j. b \<le> j \<and> j < b + k \<longrightarrow> \<not> prefix sub (drop j s))"
      using pf k(2) by simp
    then show ?thesis by blast
  qed
qed

lemma py_find_eqI:
  assumes "b \<le> p" "p \<le> length s" "prefix sub (drop p s)"
    and "\<And>j. b \<le> j \<Longrightarrow> j < p \<Longrightarrow> \<not> prefix sub (drop j s)"
  shows "py_find s sub (int b) = int p"
proof -
  from assms have b: "b \<le> length s" by simp
  from py_find_char[OF b, of sub] show ?thesis
  proof
    assume "py_find s sub (int b) = - 1 \<and> (\<forall>j. b \<le> j \<and> j \<le> length s \<longrightarrow> \<not> prefix sub (drop j s))"
    with assms(1,2,3) show ?thesis by blast
  next
    assume "\<exists>p. py_find s sub (int b) = int p \<and> b \<le> p \<and> p \<le> length s \<and> prefix sub (drop p s)
         \<and> (\<forall>j. b \<le> j \<and> j < p \<longrightarrow> \<not> prefix sub (drop j s))"
    then obtain q where q: "py_find s sub (int b) = int q" "b \<le> q" "q \<le> length s"
      "prefix sub (drop q s)" "\<forall>j. b \<le> j \<and> j < q \<longrightarrow> \<not> prefix sub (drop j s)" by blast
    have "\<not> q < p" using assms(4)[of q] q(2,4) by blast
    moreover have "\<not> p < q" using q(5) assms(1,3) by blast
    ultimately have "q = p" by simp
    with q(1) show ?thesis by simp
  qed
qed

lemma py_find_notfoundI:
  assumes "b \<le> length s" "\<And>j. b \<le> j \<Longrightarrow> j \<le> length s \<Longrightarrow> \<not> prefix sub (drop j s)"
  shows "py_find s sub (int b) = - 1"
  using py_find_char[OF assms(1), of sub] assms(2) by blast

lemma py_find_beyond: "length s < b \<Longrightarrow> py_find s sub (int b) = - 1"
  by (simp add: py_find_def clamp_index_def)

lemma py_find_range: "py_find s sub (int b) = - 1 \<or> (\<exists>p. py_find s sub (int b) = int p)"
proof (cases "b \<le> length s")
  case True
  from py_find_char[OF this, of sub] show ?thesis by blast
next
  case False
  then show ?thesis by (simp add: py_find_beyond)
qed

section \<open>The two markers\<close>

lemma length_start_marker: "length start_marker = 19"
  by (simp add: start_marker_def)

lemma length_end_marker: "length end_marker = 10"
  by (simp add: end_marker_def)

text \<open>The closing marker does not begin inside the opening marker.\<close>

lemma markers_disjoint:
  assumes "k < 19"
  shows "\<not> prefix end_marker (drop k start_marker @ r)"
proof -
  from assms have "k = 0 \<or> k = 1 \<or> k = 2 \<or> k = 3 \<or> k = 4 \<or> k = 5 \<or> k = 6 \<or> k = 7 \<or> k = 8
      \<or> k = 9 \<or> k = 10 \<or> k = 11 \<or> k = 12 \<or> k = 13 \<or> k = 14 \<or> k = 15 \<or> k = 16 \<or> k = 17
      \<or> k = 18" by arith
  then show ?thesis
    by (elim disjE) (simp_all add: start_marker_def end_marker_def)
qed

lemma no_end_marker_in_start_marker:
  assumes "prefix start_marker (drop s html)" "s \<le> j" "j < s + 19"
  shows "\<not> prefix end_marker (drop j html)"
proof -
  from assms(1) obtain r where r: "drop s html = start_marker @ r" by (auto simp: prefix_def)
  have "drop j html = drop (j - s) (drop s html)" using assms(2) by simp
  also have "\<dots> = drop (j - s) start_marker @ r"
    using assms(3) by (simp add: r length_start_marker)
  finally show ?thesis using markers_disjoint[of "j - s" r] assms(2,3) by simp
qed

lemma start_idx_char:
  "start_idx html = - 1
   \<or> (\<exists>s. start_idx html = int s \<and> s \<le> length html \<and> prefix start_marker (drop s html)
         \<and> (\<forall>j<s. \<not> prefix start_marker (drop j html)))"
  using py_find_char[of 0 html start_marker] by (auto simp: start_idx_def)

lemma prefix_drop_length:
  assumes "prefix sub (drop j s)"
  shows "j + length sub \<le> length s \<or> sub = []"
proof -
  from assms have "length sub \<le> length (drop j s)" by (rule prefix_length_le)
  then show ?thesis by (cases "j \<le> length s") auto
qed


text \<open>An artifact with a closing marker before the block.\<close>

definition html0 :: string where
  "html0 = ''        };<script>const dataCache = {x        };</script>''"

lemma start_idx_html0: "start_idx html0 = 18"
  by (simp add: html0_def start_idx_def py_find_def clamp_index_def start_marker_def)


text \<open>
  Claim C9: the search for the closing marker starts at the position of the opening marker,
  where the closing marker cannot stand, so it finds what a search from the next position
  finds; a closing marker that is found stands after the whole opening marker; and the end
  of the block is never the end of a closing marker standing before the opening marker.
\<close>

theorem closing_marker_search_after_opening:
  assumes "start_idx html \<noteq> - 1"
  shows "py_find html end_marker (start_idx html) = py_find html end_marker (start_idx html + 1)
      \<and> (py_find html end_marker (start_idx html) = - 1
          \<or> start_idx html + int (length start_marker) \<le> py_find html end_marker (start_idx html))
      \<and> (\<forall>q. int q < start_idx html \<and> prefix end_marker (drop q html)
             \<longrightarrow> end_idx html \<noteq> int q + int (length end_marker))"
proof -
  from start_idx_char[of html] assms obtain s where s: "start_idx html = int s" "s \<le> length html"
    "prefix start_marker (drop s html)" by blast
  from prefix_drop_length[OF s(3)] have len: "s + 19 \<le> length html"
    by (simp add: length_start_marker start_marker_def)
  have gap: "\<not> prefix end_marker (drop j html)" if "s \<le> j" "j < s + 19" for j
    using s(3) that by (rule no_end_marker_in_start_marker)
  from py_find_char[OF s(2), of end_marker]
  have main: "py_find html end_marker (int s) = py_find html end_marker (int (Suc s))
      \<and> (py_find html end_marker (int s) = - 1 \<or> int s + 19 \<le> py_find html end_marker (int s))"
  proof
    assume a: "py_find html end_marker (int s) = - 1
      \<and> (\<forall>j. s \<le> j \<and> j \<le> length html \<longrightarrow> \<not> prefix end_marker (drop j html))"
    have "py_find html end_marker (int (Suc s)) = - 1"
    proof (rule py_find_notfoundI)
      show "Suc s \<le> length html" using len by simp
      fix j assume "Suc s \<le> j" "j \<le> length html"
      with a show "\<not> prefix end_marker (drop j html)" by simp
    qed
    with a show ?thesis by simp
  next
    assume "\<exists>p. py_find html end_marker (int s) = int p \<and> s \<le> p \<and> p \<le> length html
        \<and> prefix end_marker (drop p html)
        \<and> (\<forall>j. s \<le> j \<and> j < p \<longrightarrow> \<not> prefix end_marker (drop j html))"
    then obtain p where p: "py_find html end_marker (int s) = int p" "s \<le> p" "p \<le> length html"
      "prefix end_marker (drop p html)"
      "\<forall>j. s \<le> j \<and> j < p \<longrightarrow> \<not> prefix end_marker (drop j html)" by blast
    have far: "s + 19 \<le> p" using gap[of p] p(2,4) by (cases "p < s + 19") auto
    have "py_find html end_marker (int (Suc s)) = int p"
    proof (rule py_find_eqI)
      show "Suc s \<le> p" using far by simp
      show "p \<le> length html" by (rule p(3))
      show "prefix end_marker (drop p html)" by (rule p(4))
      fix j assume "Suc s \<le> j" "j < p"
      with p(5) show "\<not> prefix end_marker (drop j html)" by simp
    qed
    with p(1) far show ?thesis by simp
  qed
  have third: "end_idx html \<noteq> int q + int (length end_marker)"
    if "int q < start_idx html" "prefix end_marker (drop q html)" for q
  proof -
    from main have "py_find html end_marker (int s) = - 1 \<or> int s + 19 \<le> py_find html end_marker (int s)"
      by blast
    then show ?thesis
      using that(1) by (auto simp: end_idx_def s(1))
  qed
  have suc: "int (Suc s) = int s + 1" by simp
  from main have "py_find html end_marker (int s) = py_find html end_marker (int s + 1)"
    unfolding suc by (rule conjunct1)
  then have one: "py_find html end_marker (start_idx html)
      = py_find html end_marker (start_idx html + 1)"
    unfolding s(1) .
  from main have "py_find html end_marker (int s) = - 1
      \<or> int s + 19 \<le> py_find html end_marker (int s)"
    by (rule conjunct2)
  then have two: "py_find html end_marker (start_idx html) = - 1
      \<or> start_idx html + int (length start_marker) \<le> py_find html end_marker (start_idx html)"
    unfolding s(1) length_start_marker by simp
  from one two third show ?thesis by blast
qed

theorem closing_marker_search_after_opening_witness:
  "start_idx html0 = 18 \<and> prefix end_marker (drop 0 html0)
   \<and> py_find html0 end_marker (start_idx html0) = py_find html0 end_marker (start_idx html0 + 1)
   \<and> end_idx html0 \<noteq> int 0 + int (length end_marker)"
proof -
  have h: "start_idx html0 \<noteq> - 1" by (simp add: start_idx_html0)
  have pre: "prefix end_marker (drop 0 html0)" by (simp add: end_marker_def html0_def)
  have lt: "int 0 < start_idx html0" by (simp add: start_idx_html0)
  from closing_marker_search_after_opening[OF h] pre lt start_idx_html0 show ?thesis by blast
qed

section \<open>What the injector writes\<close>

text \<open>The serialized cache is a brace, a body and a brace.\<close>

lemma json_dumps_cache_braces:
  "\<exists>body. json_dumps (json_of_cache data_cache) 12 = ''{'' @ body @ ''}''"
proof (cases "data_cache = []")
  case True
  then have "json_dumps (json_of_cache data_cache) 12 = ''{'' @ [] @ ''}''"
    by (simp add: json_dumps_def json_of_cache_def)
  then show ?thesis by blast
next
  case False
  then have "json_dumps (json_of_cache data_cache) 12 = ''{'' @
      (newline_indent 12 (Suc 0)
        @ intercalate ('','' @ newline_indent 12 (Suc 0))
            (map (\<lambda>kv. encode_basestring_ascii (fst kv) @ '': ''
                    @ iterencode 12 (Suc 0) (snd kv)) (map (\<lambda>(k, r). (k, json_of_snapshot r)) data_cache))
        @ newline_indent 12 0) @ ''}''"
    by (simp add: json_dumps_def json_of_cache_def)
  then show ?thesis by blast
qed

lemma slice_to_minus_one: "slice_to (xs @ [c]) (- 1) = xs"
  by (simp add: slice_to_def clamp_index_def)

lemma new_data_cache_markers:
  assumes "json_dumps (json_of_cache data_cache) 12 = ''{'' @ body @ ''}''"
  shows "new_data_cache data_cache = start_marker @ body @ end_marker"
proof -
  have "slice_to ((''{'' @ body) @ ''}'') (- 1) = ''{'' @ body" by (rule slice_to_minus_one)
  then show ?thesis using assms by (simp add: new_data_cache_def start_marker_def end_marker_def)
qed

lemma update_html_file_found:
  assumes "index_html w = Some file_text" "universal_newlines file_text = html"
    "start_idx html = int s" "py_find html end_marker (int s) = int e"
  shows "update_html_file data_cache w = (Inr (), w\<lparr>index_html :=
      Some (take s html @ new_data_cache data_cache @ drop (e + length end_marker) html)\<rparr>)"
  using assms
  by (simp add: update_html_file_def end_idx_def slice_to_def slice_from_def clamp_index_def
      nat_add_distrib write_newlines_posix)

lemma marker_pair_located:
  assumes "start_idx html \<noteq> - 1" "py_find html end_marker (start_idx html) \<noteq> - 1"
  shows "\<exists>s e mid. start_idx html = int s \<and> py_find html end_marker (int s) = int e
    \<and> html = take s html @ start_marker @ mid @ end_marker @ drop (e + length end_marker) html
    \<and> e = s + length start_marker + length mid \<and> s \<le> length html
    \<and> (\<forall>j<s. \<not> prefix start_marker (drop j html))
    \<and> (\<forall>j. s \<le> j \<and> j < e \<longrightarrow> \<not> prefix end_marker (drop j html))"
proof -
  from start_idx_char[of html] assms(1) obtain s where s: "start_idx html = int s" "s \<le> length html"
    "prefix start_marker (drop s html)" "\<forall>j<s. \<not> prefix start_marker (drop j html)" by blast
  from py_find_char[OF s(2), of end_marker] assms(2) s(1)
  obtain e where e: "py_find html end_marker (int s) = int e" "s \<le> e" "e \<le> length html"
    "prefix end_marker (drop e html)"
    "\<forall>j. s \<le> j \<and> j < e \<longrightarrow> \<not> prefix end_marker (drop j html)" by auto
  have far: "s + 19 \<le> e"
    using no_end_marker_in_start_marker[OF s(3), of e] e(2,4) by (cases "e < s + 19") auto
  from s(3) obtain r where r: "drop s html = start_marker @ r" by (auto simp: prefix_def)
  from e(4) obtain post where post: "drop e html = end_marker @ post" by (auto simp: prefix_def)
  have "drop e html = drop (e - s) (drop s html)" using e(2) by simp
  also have "\<dots> = drop (e - s - 19) r" using far by (simp add: r length_start_marker)
  finally have re: "drop (e - s - 19) r = end_marker @ post" using post by simp
  define n where "n = e - s - 19"
  define mid where "mid = take n r"
  have re': "drop n r = end_marker @ post" using re by (simp only: n_def)
  have "n \<le> length r"
  proof (rule ccontr)
    assume "\<not> n \<le> length r"
    then have "drop n r = []" by simp
    with re' show False by (simp add: end_marker_def)
  qed
  then have lm: "length mid = n" by (simp add: mid_def)
  have "take n r @ drop n r = r" by (rule append_take_drop_id)
  then have rr: "r = mid @ end_marker @ post" by (simp only: re' mid_def)
  have ds: "drop s html = start_marker @ mid @ end_marker @ post"
    by (simp only: r rr)
  have "drop (length end_marker) (drop e html) = post" by (simp only: post) simp
  then have pe: "drop (e + length end_marker) html = post" by (simp add: add.commute)
  have "take s html @ drop s html = html" by (rule append_take_drop_id)
  then have "html = take s html @ start_marker @ mid @ end_marker @ drop (e + length end_marker) html"
    by (simp only: ds pe)
  moreover have "e = s + length start_marker + length mid"
    using far lm by (simp add: length_start_marker n_def)
  ultimately show ?thesis using s(1,2,4) e(1,5) by blast
qed

text \<open>An artifact whose lines end in carriage return and line feed, and what is read of it.\<close>

definition crlf_html :: string where
  "crlf_html = ''<html>'' @ [CHR 0x0D, CHR 0x0A] @ ''const dataCache = {        };''
     @ [CHR 0x0D, CHR 0x0A] @ ''</html>''"

definition lf_html :: string where
  "lf_html = ''<html>'' @ [CHR 0x0A] @ ''const dataCache = {        };'' @ [CHR 0x0A] @ ''</html>''"

lemma universal_newlines_crlf_html: "universal_newlines crlf_html = lf_html"
  by (simp add: crlf_html_def lf_html_def)

lemma lf_html_markers: "start_idx lf_html = 7 \<and> py_find lf_html end_marker 7 = 26"
  by (simp add: lf_html_def start_idx_def py_find_def clamp_index_def start_marker_def
      end_marker_def)

text \<open>
  Claim C5 says that every byte before the opening marker and after the closing marker is
  unchanged in the output. It is not on \<open>crlf_html\<close>, which is the eight bytes
  \<open><html>\<close>, carriage return, line feed, then the two markers, then nine more bytes: the
  file is read in text mode, the carriage returns are gone from what is read, and what is
  written no longer starts with the eight bytes that stood before the opening marker.
\<close>

theorem update_html_file_translates_newlines:
  "crlf_html = (''<html>'' @ [CHR 0x0D, CHR 0x0A]) @ start_marker @ [] @ end_marker
       @ ([CHR 0x0D, CHR 0x0A] @ ''</html>'')
   \<and> update_html_file [] \<lparr>conn = Closed, index_html = Some crlf_html\<rparr>
       = (Inr (), \<lparr>conn = Closed, index_html = Some lf_html\<rparr>)
   \<and> \<not> prefix (''<html>'' @ [CHR 0x0D, CHR 0x0A]) lf_html
   \<and> \<not> suffix ([CHR 0x0D, CHR 0x0A] @ ''</html>'') lf_html"
proof -
  have a: "crlf_html = (''<html>'' @ [CHR 0x0D, CHR 0x0A]) @ start_marker @ [] @ end_marker
       @ ([CHR 0x0D, CHR 0x0A] @ ''</html>'')"
    by (simp add: crlf_html_def start_marker_def end_marker_def)
  have "index_html \<lparr>conn = Closed, index_html = Some crlf_html\<rparr> = Some crlf_html" by simp
  moreover note universal_newlines_crlf_html
  moreover have "start_idx lf_html = int 7" by (simp add: lf_html_markers)
  moreover have "py_find lf_html end_marker (int 7) = int 26" by (simp add: lf_html_markers)
  ultimately have "update_html_file [] \<lparr>conn = Closed, index_html = Some crlf_html\<rparr>
      = (Inr (), \<lparr>conn = Closed, index_html = Some crlf_html\<rparr>\<lparr>index_html :=
          Some (take 7 lf_html @ new_data_cache [] @ drop (26 + length end_marker) lf_html)\<rparr>)"
    by (rule update_html_file_found)
  moreover have "take 7 lf_html @ new_data_cache [] @ drop (26 + length end_marker) lf_html = lf_html"
    by (simp add: lf_html_def new_data_cache_def json_dumps_def json_of_cache_def slice_to_def
        clamp_index_def end_marker_def)
  ultimately have b: "update_html_file [] \<lparr>conn = Closed, index_html = Some crlf_html\<rparr>
       = (Inr (), \<lparr>conn = Closed, index_html = Some lf_html\<rparr>)" by simp
  have c: "\<not> prefix (''<html>'' @ [CHR 0x0D, CHR 0x0A]) lf_html"
    by (simp add: lf_html_def)
  have d: "\<not> suffix ([CHR 0x0D, CHR 0x0A] @ ''</html>'') lf_html"
    by (simp add: lf_html_def suffix_to_prefix)
  from a b c d show ?thesis by blast
qed

text \<open>
  Claim C5, amended: let \<open>html\<close> be the artifact as text mode reads it (carriage return and
  line feed, and a carriage return alone, read as one line feed), with the opening marker
  and a closing marker after it. Then \<open>html\<close> is \<open>pre\<close>, opening marker, \<open>mid\<close>, closing
  marker, \<open>post\<close>, for the first opening marker and the first closing marker after it, and
  \<open>update_html_file\<close> writes \<open>pre\<close>, opening marker, the body of the serialized cache, closing
  marker, \<open>post\<close>: every character of \<open>html\<close> before and after the block is unchanged. An
  artifact without a carriage return is read as it is, so for it every byte before and
  after the block is unchanged.
\<close>

theorem update_html_file_replaces_block:
  assumes "index_html w = Some file_text"
    and "universal_newlines file_text = html"
    and "start_idx html \<noteq> - 1"
    and "py_find html end_marker (start_idx html) \<noteq> - 1"
  shows "\<exists>pre mid post body.
      html = pre @ start_marker @ mid @ end_marker @ post
    \<and> start_idx html = int (length pre)
    \<and> py_find html end_marker (start_idx html) = int (length (pre @ start_marker @ mid))
    \<and> json_dumps (json_of_cache data_cache) 12 = ''{'' @ body @ ''}''
    \<and> update_html_file data_cache w
        = (Inr (), w\<lparr>index_html := Some (pre @ start_marker @ body @ end_marker @ post)\<rparr>)
    \<and> (CHR 0x0D \<notin> set file_text \<longrightarrow> file_text = pre @ start_marker @ mid @ end_marker @ post)"
proof -
  from marker_pair_located[OF assms(3,4)] obtain s e mid where
    s: "start_idx html = int s" and e: "py_find html end_marker (int s) = int e"
    and html: "html = take s html @ start_marker @ mid @ end_marker @ drop (e + length end_marker) html"
    and len: "e = s + length start_marker + length mid" and sl: "s \<le> length html" by blast
  from json_dumps_cache_braces obtain body where
    body: "json_dumps (json_of_cache data_cache) 12 = ''{'' @ body @ ''}''" by blast
  let ?pre = "take s html" and ?post = "drop (e + length end_marker) html"
  from sl have lp: "length ?pre = s" by simp
  have "update_html_file data_cache w
      = (Inr (), w\<lparr>index_html := Some (?pre @ start_marker @ body @ end_marker @ ?post)\<rparr>)"
    using update_html_file_found[OF assms(1,2) s e] new_data_cache_markers[OF body] by simp
  moreover have "py_find html end_marker (start_idx html) = int (length (?pre @ start_marker @ mid))"
    using e s len lp by simp
  moreover have "start_idx html = int (length ?pre)" using s lp by simp
  moreover have "CHR 0x0D \<notin> set file_text
      \<longrightarrow> file_text = ?pre @ start_marker @ mid @ end_marker @ ?post"
  proof
    assume "CHR 0x0D \<notin> set file_text"
    then have "universal_newlines file_text = file_text" by (rule universal_newlines_without_cr)
    with assms(2) html show "file_text = ?pre @ start_marker @ mid @ end_marker @ ?post" by simp
  qed
  ultimately show ?thesis using html body by blast
qed

theorem update_html_file_replaces_block_witness:
  "universal_newlines html0 = html0 \<and> CHR 0x0D \<notin> set html0
   \<and> start_idx html0 \<noteq> - 1 \<and> py_find html0 end_marker (start_idx html0) \<noteq> - 1
   \<and> (\<exists>pre mid post body.
      html0 = pre @ start_marker @ mid @ end_marker @ post
    \<and> start_idx html0 = int (length pre)
    \<and> json_dumps (json_of_cache sample_cache) 12 = ''{'' @ body @ ''}''
    \<and> update_html_file sample_cache \<lparr>conn = Closed, index_html = Some html0\<rparr>
        = (Inr (), \<lparr>conn = Closed,
             index_html = Some (pre @ start_marker @ body @ end_marker @ post)\<rparr>))
   \<and> universal_newlines crlf_html = lf_html
   \<and> start_idx lf_html \<noteq> - 1 \<and> py_find lf_html end_marker (start_idx lf_html) \<noteq> - 1
   \<and> (\<exists>pre mid post body.
      lf_html = pre @ start_marker @ mid @ end_marker @ post
    \<and> json_dumps (json_of_cache sample_cache) 12 = ''{'' @ body @ ''}''
    \<and> update_html_file sample_cache \<lparr>conn = Closed, index_html = Some crlf_html\<rparr>
        = (Inr (), \<lparr>conn = Closed,
             index_html = Some (pre @ start_marker @ body @ end_marker @ post)\<rparr>))"
proof -
  have h1: "index_html \<lparr>conn = Closed, index_html = Some html0\<rparr> = Some html0" by simp
  have cr: "CHR 0x0D \<notin> set html0" by (simp add: html0_def)
  then have h2: "universal_newlines html0 = html0" by (rule universal_newlines_without_cr)
  have h3: "start_idx html0 \<noteq> - 1" by (simp add: start_idx_html0)
  have h4: "py_find html0 end_marker (start_idx html0) \<noteq> - 1"
    by (simp add: start_idx_html0) (simp add: html0_def py_find_def clamp_index_def end_marker_def)
  from update_html_file_replaces_block[OF h1 h2 h3 h4, of sample_cache] obtain pre mid post body where
    "html0 = pre @ start_marker @ mid @ end_marker @ post"
    "start_idx html0 = int (length pre)"
    "json_dumps (json_of_cache sample_cache) 12 = ''{'' @ body @ ''}''"
    "update_html_file sample_cache \<lparr>conn = Closed, index_html = Some html0\<rparr>
        = (Inr (), \<lparr>conn = Closed, index_html = Some html0\<rparr>
             \<lparr>index_html := Some (pre @ start_marker @ body @ end_marker @ post)\<rparr>)"
    by blast
  then have one: "\<exists>pre mid post body. html0 = pre @ start_marker @ mid @ end_marker @ post
    \<and> start_idx html0 = int (length pre)
    \<and> json_dumps (json_of_cache sample_cache) 12 = ''{'' @ body @ ''}''
    \<and> update_html_file sample_cache \<lparr>conn = Closed, index_html = Some html0\<rparr>
        = (Inr (), \<lparr>conn = Closed,
             index_html = Some (pre @ start_marker @ body @ end_marker @ post)\<rparr>)"
    by auto
  have k1: "index_html \<lparr>conn = Closed, index_html = Some crlf_html\<rparr> = Some crlf_html" by simp
  have k3: "start_idx lf_html \<noteq> - 1" by (simp add: lf_html_markers)
  have k4: "py_find lf_html end_marker (start_idx lf_html) \<noteq> - 1" by (simp add: lf_html_markers)
  from update_html_file_replaces_block[OF k1 universal_newlines_crlf_html k3 k4, of sample_cache]
  obtain pre' mid' post' body' where
    "lf_html = pre' @ start_marker @ mid' @ end_marker @ post'"
    "json_dumps (json_of_cache sample_cache) 12 = ''{'' @ body' @ ''}''"
    "update_html_file sample_cache \<lparr>conn = Closed, index_html = Some crlf_html\<rparr>
        = (Inr (), \<lparr>conn = Closed, index_html = Some crlf_html\<rparr>
             \<lparr>index_html := Some (pre' @ start_marker @ body' @ end_marker @ post')\<rparr>)"
    by blast
  then have two: "\<exists>pre mid post body. lf_html = pre @ start_marker @ mid @ end_marker @ post
    \<and> json_dumps (json_of_cache sample_cache) 12 = ''{'' @ body @ ''}''
    \<and> update_html_file sample_cache \<lparr>conn = Closed, index_html = Some crlf_html\<rparr>
        = (Inr (), \<lparr>conn = Closed,
             index_html = Some (pre @ start_marker @ body @ end_marker @ post)\<rparr>)"
    by auto
  from cr h2 h3 h4 one universal_newlines_crlf_html k3 k4 two show ?thesis by blast
qed

section \<open>Characters the encoder does not print\<close>

text \<open>
  \<open>json_avoids c j\<close>: no text, number or \<open>null\<close> of \<open>j\<close> prints the character \<open>c\<close>. The brackets,
  commas, colons, spaces and line feeds between them are the encoder's own.
\<close>

fun json_avoids :: "char \<Rightarrow> json \<Rightarrow> bool" where
  "json_avoids c JNull = (c \<notin> set ''null'')"
| "json_avoids c (JStr s) = (c \<notin> set (encode_basestring_ascii s))"
| "json_avoids c (JInt i) = (c \<notin> set (int_repr i))"
| "json_avoids c (JFloat f) = (c \<notin> set (floatstr f))"
| "json_avoids c (JList xs) = list_all (json_avoids c) xs"
| "json_avoids c (JDict kvs) =
     list_all (\<lambda>kv. c \<notin> set (encode_basestring_ascii (fst kv)) \<and> json_avoids c (snd kv)) kvs"

lemma intercalate_avoids:
  "c \<notin> set sep \<Longrightarrow> \<forall>x\<in>set xs. c \<notin> set x \<Longrightarrow> c \<notin> set (intercalate sep xs)"
  by (induction sep xs rule: intercalate.induct) simp_all

lemma newline_indent_avoids:
  "c \<noteq> CHR 0x0A \<Longrightarrow> c \<noteq> CHR '' '' \<Longrightarrow> c \<notin> set (newline_indent n l)"
  by (simp add: newline_indent_def)

lemma iterencode_avoids:
  assumes "c \<noteq> CHR 0x0A" "c \<noteq> CHR '' ''" "c \<noteq> CHR '',''" "c \<noteq> CHR '':''"
    and "c \<noteq> CHR ''[''" "c \<noteq> CHR '']''" "c \<noteq> CHR ''{''" "c \<noteq> CHR ''}''"
  shows "json_avoids c j \<Longrightarrow> c \<notin> set (iterencode n l j)"
proof (induction n l j rule: iterencode.induct)
  case (1 n l)
  then show ?case by simp
next
  case (2 n l s)
  then show ?case by simp
next
  case (3 n l i)
  then show ?case by simp
next
  case (4 n l f)
  then show ?case by simp
next
  case (5 n l xs)
  show ?case
  proof (cases "xs = []")
    case True
    then show ?thesis using assms by simp
  next
    case False
    have sep: "c \<notin> set ('','' @ newline_indent n (Suc l))"
      using assms newline_indent_avoids[of c n "Suc l"] by simp
    have "\<forall>x\<in>set (map (iterencode n (Suc l)) xs). c \<notin> set x"
      using "5.IH"[OF False] "5.prems" by (auto simp: list_all_iff)
    with sep have "c \<notin> set (intercalate ('','' @ newline_indent n (Suc l))
        (map (iterencode n (Suc l)) xs))"
      by (rule intercalate_avoids)
    then show ?thesis
      using False assms newline_indent_avoids[of c n "Suc l"] newline_indent_avoids[of c n l]
      by simp
  qed
next
  case (6 n l kvs)
  show ?case
  proof (cases "kvs = []")
    case True
    then show ?thesis using assms by simp
  next
    case False
    let ?item = "\<lambda>kv. encode_basestring_ascii (fst kv) @ '': '' @ iterencode n (Suc l) (snd kv)"
    have sep: "c \<notin> set ('','' @ newline_indent n (Suc l))"
      using assms newline_indent_avoids[of c n "Suc l"] by simp
    have "c \<notin> set (?item kv)" if "kv \<in> set kvs" for kv
    proof -
      from that "6.prems" have "c \<notin> set (encode_basestring_ascii (fst kv))"
        "json_avoids c (snd kv)" by (auto simp: list_all_iff)
      with "6.IH"[OF False that] assms show ?thesis by simp
    qed
    then have "\<forall>x\<in>set (map ?item kvs). c \<notin> set x" by simp
    with sep have "c \<notin> set (intercalate ('','' @ newline_indent n (Suc l)) (map ?item kvs))"
      by (rule intercalate_avoids)
    then show ?thesis
      using False assms newline_indent_avoids[of c n "Suc l"] newline_indent_avoids[of c n l]
      by simp
  qed
qed

text \<open>The part of the new block before its closing marker.\<close>

lemma new_data_cache_front_avoids:
  assumes "c \<noteq> CHR 0x0A" "c \<noteq> CHR '' ''" "c \<noteq> CHR '',''" "c \<noteq> CHR '':''"
    and "c \<noteq> CHR ''[''" "c \<noteq> CHR '']''" "c \<noteq> CHR ''{''" "c \<noteq> CHR ''}''"
    and "c \<notin> set ''const dataCache = ''"
    and "json_avoids c (json_of_cache data_cache)"
  shows "c \<notin> set (''const dataCache = '' @ slice_to (json_dumps (json_of_cache data_cache) 12) (- 1))"
proof -
  have "c \<notin> set (json_dumps (json_of_cache data_cache) 12)"
    unfolding json_dumps_def using assms(1-8,10) by (rule iterencode_avoids)
  then have "c \<notin> set (slice_to (json_dumps (json_of_cache data_cache) 12) (- 1))"
    by (auto simp: slice_to_def dest: in_set_takeD)
  with assms(9) show ?thesis by simp
qed

lemma end_marker_nth: "k < 9 \<Longrightarrow> end_marker ! k \<noteq> CHR '';''"
proof -
  assume "k < 9"
  then have "k = 0 \<or> k = 1 \<or> k = 2 \<or> k = 3 \<or> k = 4 \<or> k = 5 \<or> k = 6 \<or> k = 7 \<or> k = 8"
    by arith
  then show ?thesis by (elim disjE) (simp_all add: end_marker_def)
qed

text \<open>
  When the text before the closing marker has no semicolon, the closing marker that ends
  the block is the first one in it.
\<close>

lemma first_end_marker_at_end:
  assumes "CHR '';'' \<notin> set front"
  shows "py_find (front @ end_marker) end_marker 0
           = int (length (front @ end_marker)) - int (length end_marker)"
proof -
  have "py_find (front @ end_marker) end_marker (int 0) = int (length front)"
  proof (rule py_find_eqI)
    show "0 \<le> length front" by simp
    show "length front \<le> length (front @ end_marker)" by simp
    show "prefix end_marker (drop (length front) (front @ end_marker))" by simp
    fix j assume j: "j < length front"
    show "\<not> prefix end_marker (drop j (front @ end_marker))"
    proof
      assume "prefix end_marker (drop j (front @ end_marker))"
      then obtain zs where zs: "drop j front @ end_marker = end_marker @ zs"
        using j by (auto simp: prefix_def)
      have "(drop j front @ end_marker) ! 9 = end_marker ! 9"
        by (simp only: zs) (simp add: nth_append length_end_marker)
      then have semi: "(drop j front @ end_marker) ! 9 = CHR '';''"
        by (simp add: end_marker_def)
      show False
      proof (cases "9 < length (drop j front)")
        case True
        then have "(drop j front) ! 9 = CHR '';''" using semi by (simp add: nth_append)
        moreover from True have "(drop j front) ! 9 \<in> set (drop j front)" by (rule nth_mem)
        ultimately have "CHR '';'' \<in> set front" by (auto dest: in_set_dropD)
        with assms show False by simp
      next
        case False
        then have "end_marker ! (9 - length (drop j front)) = CHR '';''"
          using semi by (simp add: nth_append)
        moreover have "9 - length (drop j front) < 9" using j by simp
        ultimately show False using end_marker_nth by blast
      qed
    qed
  qed
  then show ?thesis by simp
qed

section \<open>Applying the injector twice\<close>

lemma prefix_append_short:
  assumes "length sub \<le> length y"
  shows "prefix sub (y @ r) = prefix sub y"
proof
  assume "prefix sub (y @ r)"
  then have "prefix sub y \<or> (\<exists>us. sub = y @ us \<and> prefix us r)" by (simp add: prefix_append)
  then show "prefix sub y"
  proof
    assume "prefix sub y" then show ?thesis .
  next
    assume "\<exists>us. sub = y @ us \<and> prefix us r"
    then obtain us where us: "sub = y @ us" by blast
    with assms have "us = []" by simp
    with us show ?thesis by simp
  qed
next
  assume "prefix sub y"
  then show "prefix sub (y @ r)" by (rule prefix_prefix)
qed

lemma prefix_drop_append:
  assumes "j + length sub \<le> length x"
  shows "prefix sub (drop j (x @ r)) = prefix sub (drop j x)"
proof -
  from assms have "drop j (x @ r) = drop j x @ r" by simp
  moreover from assms have "length sub \<le> length (drop j x)" by simp
  ultimately show ?thesis by (simp only: prefix_append_short)
qed

text \<open>The first opening marker stays where it is when the text after it changes.\<close>

lemma start_idx_splice:
  assumes "\<forall>j<length pre. \<not> prefix start_marker (drop j (pre @ start_marker @ rest))"
  shows "start_idx (pre @ start_marker @ rest') = int (length pre)"
proof -
  have "py_find (pre @ start_marker @ rest') start_marker (int 0) = int (length pre)"
  proof (rule py_find_eqI)
    show "0 \<le> length pre" by simp
    show "length pre \<le> length (pre @ start_marker @ rest')" by simp
    show "prefix start_marker (drop (length pre) (pre @ start_marker @ rest'))" by simp
    fix j assume j: "j < length pre"
    then have le: "j + length start_marker \<le> length (pre @ start_marker)" by simp
    have "prefix start_marker (drop j ((pre @ start_marker) @ rest'))
        = prefix start_marker (drop j (pre @ start_marker))"
      using le by (rule prefix_drop_append)
    also have "\<dots> = prefix start_marker (drop j ((pre @ start_marker) @ rest))"
      using le by (rule prefix_drop_append[symmetric])
    finally show "\<not> prefix start_marker (drop j (pre @ start_marker @ rest'))"
      using assms j by simp
  qed
  then show ?thesis by (simp add: start_idx_def)
qed

text \<open>The first application, on an artifact that has the marker pair.\<close>

lemma update_html_file_once:
  assumes "index_html w = Some file_text"
    and "universal_newlines file_text = html"
    and "start_idx html \<noteq> - 1"
    and "py_find html end_marker (start_idx html) \<noteq> - 1"
  shows "\<exists>pre mid post.
      html = pre @ start_marker @ mid @ end_marker @ post
    \<and> CHR 0x0D \<notin> set pre \<and> CHR 0x0D \<notin> set post
    \<and> (\<forall>j<length pre. \<not> prefix start_marker (drop j html))
    \<and> update_html_file data_cache w
        = (Inr (), w\<lparr>index_html := Some (pre @ new_data_cache data_cache @ post)\<rparr>)"
proof -
  from marker_pair_located[OF assms(3,4)] obtain s e mid where
    s: "start_idx html = int s" and e: "py_find html end_marker (int s) = int e"
    and html: "html = take s html @ start_marker @ mid @ end_marker @ drop (e + length end_marker) html"
    and sl: "s \<le> length html" and first: "\<forall>j<s. \<not> prefix start_marker (drop j html)" by blast
  from sl have "length (take s html) = s" by simp
  with first have first': "\<forall>j<length (take s html). \<not> prefix start_marker (drop j html)" by simp
  have "CHR 0x0D \<notin> set html" using universal_newlines_no_cr[of file_text] unfolding assms(2) .
  then have "CHR 0x0D \<notin> set (take s html)" "CHR 0x0D \<notin> set (drop (e + length end_marker) html)"
    by (auto dest: in_set_takeD in_set_dropD)
  with html first' update_html_file_found[OF assms(1,2) s e, of data_cache] show ?thesis by blast
qed

text \<open>The second application finds the opening marker of the block the first one wrote.\<close>

lemma start_idx_after_update:
  assumes "\<forall>j<length pre. \<not> prefix start_marker (drop j (pre @ start_marker @ rest))"
    and "new_data_cache data_cache = start_marker @ body @ end_marker"
  shows "start_idx (pre @ new_data_cache data_cache @ post) = int (length pre)"
  using start_idx_splice[OF assms(1), of "body @ end_marker @ post"] by (simp add: assms(2))

lemma first_occurrence_from_find:
  assumes "py_find b sub 0 = int p"
  shows "p \<le> length b \<and> prefix sub (drop p b) \<and> (\<forall>j<p. \<not> prefix sub (drop j b))"
  using py_find_char[of 0 b sub] assms by auto


text \<open>
  A closing marker inside the serialized cache ends the block of the second application
  early: what the second application writes is longer than what the first wrote.
\<close>

lemma update_html_file_twice_longer:
  assumes "index_html w = Some file_text"
    and "universal_newlines file_text = html"
    and "start_idx html \<noteq> - 1"
    and "py_find html end_marker (start_idx html) \<noteq> - 1"
    and "j + length end_marker < length (new_data_cache data_cache)"
    and "prefix end_marker (drop j (new_data_cache data_cache))"
    and "CHR 0x0D \<notin> set (new_data_cache data_cache)"
  shows "\<exists>h1 h2. update_html_file data_cache w = (Inr (), w\<lparr>index_html := Some h1\<rparr>)
     \<and> update_html_file data_cache (w\<lparr>index_html := Some h1\<rparr>)
           = (Inr (), w\<lparr>index_html := Some h2\<rparr>)
     \<and> length h1 < length h2"
proof -
  let ?B = "new_data_cache data_cache"
  from update_html_file_once[OF assms(1,2,3,4), of data_cache] obtain pre mid post where
    html: "html = pre @ start_marker @ mid @ end_marker @ post"
    and nocr: "CHR 0x0D \<notin> set pre" "CHR 0x0D \<notin> set post"
    and first: "\<forall>j<length pre. \<not> prefix start_marker (drop j html)"
    and once: "update_html_file data_cache w = (Inr (), w\<lparr>index_html := Some (pre @ ?B @ post)\<rparr>)"
    by blast
  from json_dumps_cache_braces obtain body where
    "json_dumps (json_of_cache data_cache) 12 = ''{'' @ body @ ''}''" by blast
  then have B: "?B = start_marker @ body @ end_marker" by (rule new_data_cache_markers)
  let ?w1 = "w\<lparr>index_html := Some (pre @ ?B @ post)\<rparr>"
  let ?h1 = "pre @ ?B @ post"
  have s1: "start_idx ?h1 = int (length pre)"
    using first B unfolding html by (rule start_idx_after_update)
  have occ: "prefix end_marker (drop (length pre + j) ?h1)"
  proof -
    have "drop (length pre + j) ?h1 = drop j (?B @ post)" by simp
    moreover have "prefix end_marker (drop j (?B @ post)) = prefix end_marker (drop j ?B)"
      by (rule prefix_drop_append) (use assms(5) in simp)
    ultimately show ?thesis using assms(6) by simp
  qed
  have "length pre \<le> length ?h1" by simp
  from py_find_char[OF this, of end_marker]
  obtain e where e: "py_find ?h1 end_marker (int (length pre)) = int e" "e \<le> length pre + j"
  proof
    assume "py_find ?h1 end_marker (int (length pre)) = - 1
      \<and> (\<forall>i. length pre \<le> i \<and> i \<le> length ?h1 \<longrightarrow> \<not> prefix end_marker (drop i ?h1))"
    moreover have "length pre + j \<le> length ?h1" using assms(5) by simp
    ultimately have False using occ by (metis le_add1)
    then show thesis ..
  next
    assume "\<exists>p. py_find ?h1 end_marker (int (length pre)) = int p \<and> length pre \<le> p
        \<and> p \<le> length ?h1 \<and> prefix end_marker (drop p ?h1)
        \<and> (\<forall>i. length pre \<le> i \<and> i < p \<longrightarrow> \<not> prefix end_marker (drop i ?h1))"
    then obtain p where p: "py_find ?h1 end_marker (int (length pre)) = int p"
      "\<forall>i. length pre \<le> i \<and> i < p \<longrightarrow> \<not> prefix end_marker (drop i ?h1)" by blast
    have "\<not> length pre + j < p" using p(2) occ by (metis le_add1)
    then have "p \<le> length pre + j" by simp
    with p(1) show thesis by (rule that)
  qed
  let ?h2 = "take (length pre) ?h1 @ ?B @ drop (e + length end_marker) ?h1"
  have read: "universal_newlines ?h1 = ?h1"
    by (rule universal_newlines_without_cr) (use nocr assms(7) in simp)
  have "index_html ?w1 = Some ?h1" by simp
  from update_html_file_found[OF this read s1 e(1), of data_cache]
  have twice: "update_html_file data_cache ?w1 = (Inr (), w\<lparr>index_html := Some ?h2\<rparr>)" by simp
  have "length ?h1 < length ?h2"
    using e(2) assms(5) by simp
  with once twice show ?thesis by blast
qed

text \<open>A cache in which the name of an institution holds the closing marker.\<close>

definition marker_cache :: cache where
  "marker_cache = [(''2025-11-01_2025-11-30'', \<lparr>
     summary = \<lparr>uniqueUsers = 1, totalTransactions = 1, totalVolume = PyFloat ''100.0'',
                avgDeposit = PyFloat ''100.0''\<rparr>,
     buckets = [],
     topByFrequency = [\<lparr>i_name = ''PAY        };ROLL'', i_count = 1, i_volume = PyFloat ''100.0''\<rparr>],
     topByVolume = []\<rparr>)]"

text \<open>An artifact with an empty block.\<close>

definition block_html :: string where
  "block_html = ''<script>const dataCache = {        };</script>''"

lemma replicate_numeral: "replicate (numeral k) x = x # replicate (pred_numeral k) x"
  by (simp add: numeral_eq_Suc)

lemmas json_defs = replicate_numeral json_dumps_def json_of_cache_def json_of_snapshot_def
  json_of_summary_def json_of_bucket_def json_of_institution_def encode_basestring_ascii_def
  escape_char_def floatstr_def newline_indent_def int_repr_def nat_digits_small digit_char_def

lemma new_data_cache_longer:
  assumes "data_cache \<noteq> []"
  shows "length start_marker + length end_marker + 13 \<le> length (new_data_cache data_cache)"
proof -
  let ?items = "map (\<lambda>kv. encode_basestring_ascii (fst kv) @ '': ''
                    @ iterencode 12 (Suc 0) (snd kv)) (map (\<lambda>(k, r). (k, json_of_snapshot r)) data_cache)"
  let ?body = "newline_indent 12 (Suc 0) @ intercalate ('','' @ newline_indent 12 (Suc 0)) ?items
        @ newline_indent 12 0"
  from assms have "json_dumps (json_of_cache data_cache) 12 = ''{'' @ ?body @ ''}''"
    by (simp add: json_dumps_def json_of_cache_def)
  then have "new_data_cache data_cache = start_marker @ ?body @ end_marker"
    by (rule new_data_cache_markers)
  then show ?thesis by (simp add: newline_indent_def)
qed

lemma marker_cache_block:
  "532 + length end_marker < length (new_data_cache marker_cache)
   \<and> prefix end_marker (drop 532 (new_data_cache marker_cache))"
  by (simp add: new_data_cache_def marker_cache_def json_defs slice_to_def clamp_index_def
      end_marker_def)

lemmas leaf_defs = json_of_cache_def json_of_snapshot_def json_of_summary_def
  json_of_bucket_def json_of_institution_def encode_basestring_ascii_def escape_char_def
  floatstr_def int_repr_def nat_digits_small digit_char_def

lemma marker_cache_no_cr: "CHR 0x0D \<notin> set (new_data_cache marker_cache)"
proof -
  have "json_avoids (CHR 0x0D) (json_of_cache marker_cache)"
    by (simp add: marker_cache_def leaf_defs)
  then have "CHR 0x0D \<notin> set (''const dataCache = ''
      @ slice_to (json_dumps (json_of_cache marker_cache) 12) (- 1))"
    by (intro new_data_cache_front_avoids) simp_all
  then show ?thesis by (simp add: new_data_cache_def)
qed

lemma block_html_markers:
  "start_idx block_html = 8 \<and> py_find block_html end_marker 8 = 27"
  by (simp add: block_html_def start_idx_def py_find_def clamp_index_def start_marker_def
      end_marker_def)

lemma block_html_read: "universal_newlines block_html = block_html"
  by (rule universal_newlines_without_cr) (simp add: block_html_def)

lemma html0_read: "universal_newlines html0 = html0"
  by (rule universal_newlines_without_cr) (simp add: html0_def)

text \<open>A cache with one range, one institution and no marker in any text.\<close>

definition plain_cache :: cache where
  "plain_cache = [(''2025-11-01_2025-11-30'', \<lparr>
     summary = \<lparr>uniqueUsers = 1, totalTransactions = 1, totalVolume = PyFloat ''100.0'',
                avgDeposit = PyFloat ''100.0''\<rparr>,
     buckets = [\<lparr>b_range = Some ''$1-$250'', b_count = 1\<rparr>],
     topByFrequency = [\<lparr>i_name = ''PAYROLL'', i_count = 1, i_volume = PyFloat ''100.0''\<rparr>],
     topByVolume = [\<lparr>i_name = ''PAYROLL'', i_count = 1, i_volume = PyFloat ''100.0''\<rparr>]\<rparr>)]"

lemma plain_cache_no_cr: "CHR 0x0D \<notin> set (new_data_cache plain_cache)"
proof -
  have "json_avoids (CHR 0x0D) (json_of_cache plain_cache)"
    by (simp add: plain_cache_def leaf_defs)
  then have "CHR 0x0D \<notin> set (''const dataCache = ''
      @ slice_to (json_dumps (json_of_cache plain_cache) 12) (- 1))"
    by (intro new_data_cache_front_avoids) simp_all
  then show ?thesis by (simp add: new_data_cache_def)
qed

lemma plain_cache_first_end_marker:
  "py_find (new_data_cache plain_cache) end_marker 0
     = int (length (new_data_cache plain_cache)) - int (length end_marker)"
proof -
  have "json_avoids (CHR '';'') (json_of_cache plain_cache)"
    by (simp add: plain_cache_def leaf_defs)
  then have "CHR '';'' \<notin> set (''const dataCache = ''
      @ slice_to (json_dumps (json_of_cache plain_cache) 12) (- 1))"
    by (intro new_data_cache_front_avoids) simp_all
  then have "py_find ((''const dataCache = ''
      @ slice_to (json_dumps (json_of_cache plain_cache) 12) (- 1)) @ end_marker) end_marker 0
    = int (length ((''const dataCache = ''
      @ slice_to (json_dumps (json_of_cache plain_cache) 12) (- 1)) @ end_marker))
      - int (length end_marker)"
    by (rule first_end_marker_at_end)
  then show ?thesis by (simp add: new_data_cache_def end_marker_def)
qed

text \<open>
  Claim C4 says that a second application with the same cache leaves the artifact as the
  first application wrote it, for every artifact with the marker pair and every cache. It
  does not for \<open>marker_cache\<close>: the second application ends its block at the closing marker
  inside the institution's name, and what it writes differs from what the first wrote.
\<close>

theorem update_html_file_not_idempotent:
  "fst (update_html_file marker_cache \<lparr>conn = Closed, index_html = Some block_html\<rparr>) = Inr ()
   \<and> fst (update_html_file marker_cache
          (snd (update_html_file marker_cache \<lparr>conn = Closed, index_html = Some block_html\<rparr>)))
       = Inr ()
   \<and> index_html (snd (update_html_file marker_cache
          (snd (update_html_file marker_cache \<lparr>conn = Closed, index_html = Some block_html\<rparr>))))
       \<noteq> index_html (snd (update_html_file marker_cache
             \<lparr>conn = Closed, index_html = Some block_html\<rparr>))"
proof -
  have h1: "index_html \<lparr>conn = Closed, index_html = Some block_html\<rparr> = Some block_html" by simp
  have h2: "start_idx block_html \<noteq> - 1" by (simp add: block_html_markers)
  have h3: "py_find block_html end_marker (start_idx block_html) \<noteq> - 1"
    by (simp add: block_html_markers)
  from marker_cache_block have h4: "532 + length end_marker < length (new_data_cache marker_cache)"
    and h5: "prefix end_marker (drop 532 (new_data_cache marker_cache))" by blast+
  from update_html_file_twice_longer[OF h1 block_html_read h2 h3 h4 h5 marker_cache_no_cr]
  obtain a b where
    "update_html_file marker_cache \<lparr>conn = Closed, index_html = Some block_html\<rparr>
         = (Inr (), \<lparr>conn = Closed, index_html = Some block_html\<rparr>\<lparr>index_html := Some a\<rparr>)"
    "update_html_file marker_cache (\<lparr>conn = Closed, index_html = Some block_html\<rparr>\<lparr>index_html := Some a\<rparr>)
         = (Inr (), \<lparr>conn = Closed, index_html = Some block_html\<rparr>\<lparr>index_html := Some b\<rparr>)"
    "length a < length b" by blast
  then show ?thesis by auto
qed

text \<open>
  Claim C4, amended: for every artifact that, as text mode reads it, has the marker pair,
  and every cache whose new block holds the closing marker nowhere before its end and no
  carriage return, the first application succeeds and a second application with the same
  cache succeeds and leaves the world, and so the artifact, exactly as the first left it.
  The encoder escapes a carriage return in every text, so only the text of a float could
  bring one into the block, and no float prints one.
\<close>

theorem update_html_file_idempotent:
  assumes "index_html w = Some file_text"
    and "universal_newlines file_text = html"
    and "start_idx html \<noteq> - 1"
    and "py_find html end_marker (start_idx html) \<noteq> - 1"
    and "py_find (new_data_cache data_cache) end_marker 0
           = int (length (new_data_cache data_cache)) - int (length end_marker)"
    and "CHR 0x0D \<notin> set (new_data_cache data_cache)"
  shows "\<exists>w1. update_html_file data_cache w = (Inr (), w1)
           \<and> update_html_file data_cache w1 = (Inr (), w1)"
proof -
  let ?B = "new_data_cache data_cache"
  from update_html_file_once[OF assms(1,2,3,4), of data_cache] obtain pre mid post where
    html: "html = pre @ start_marker @ mid @ end_marker @ post"
    and nocr: "CHR 0x0D \<notin> set pre" "CHR 0x0D \<notin> set post"
    and first: "\<forall>j<length pre. \<not> prefix start_marker (drop j html)"
    and once: "update_html_file data_cache w = (Inr (), w\<lparr>index_html := Some (pre @ ?B @ post)\<rparr>)"
    by blast
  from json_dumps_cache_braces obtain body where
    "json_dumps (json_of_cache data_cache) 12 = ''{'' @ body @ ''}''" by blast
  then have B: "?B = start_marker @ body @ end_marker" by (rule new_data_cache_markers)
  define n where "n = length (start_marker @ body)"
  have lenB: "length ?B = n + length end_marker" by (simp add: B n_def)
  from assms(5) have "py_find ?B end_marker 0 = int n" by (simp add: lenB)
  from first_occurrence_from_find[OF this]
  have noearly: "\<forall>j<n. \<not> prefix end_marker (drop j ?B)" by blast
  let ?w1 = "w\<lparr>index_html := Some (pre @ ?B @ post)\<rparr>"
  let ?h1 = "pre @ ?B @ post"
  have s1: "start_idx ?h1 = int (length pre)"
    using first B unfolding html by (rule start_idx_after_update)
  have e1: "py_find ?h1 end_marker (int (length pre)) = int (length pre + n)"
  proof (rule py_find_eqI)
    show "length pre \<le> length pre + n" by simp
    show "length pre + n \<le> length ?h1" by (simp add: lenB)
    have "drop (length pre + n) ?h1 = end_marker @ post"
      by (simp add: B n_def)
    then show "prefix end_marker (drop (length pre + n) ?h1)" by simp
    fix j assume j: "length pre \<le> j" "j < length pre + n"
    have "drop j ?h1 = drop (j - length pre) (?B @ post)" using j(1) by simp
    moreover have "prefix end_marker (drop (j - length pre) (?B @ post))
        = prefix end_marker (drop (j - length pre) ?B)"
      by (rule prefix_drop_append) (use j lenB in simp)
    moreover have "\<not> prefix end_marker (drop (j - length pre) ?B)"
      using noearly j by simp
    ultimately show "\<not> prefix end_marker (drop j ?h1)" by simp
  qed
  have read: "universal_newlines ?h1 = ?h1"
    by (rule universal_newlines_without_cr) (use nocr assms(6) in simp)
  have "index_html ?w1 = Some ?h1" by simp
  from update_html_file_found[OF this read s1 e1, of data_cache]
  have "update_html_file data_cache ?w1
      = (Inr (), ?w1\<lparr>index_html := Some (take (length pre) ?h1 @ ?B
            @ drop (length pre + n + length end_marker) ?h1)\<rparr>)" .
  moreover have "take (length pre) ?h1 = pre" by simp
  moreover have "drop (length pre + n + length end_marker) ?h1 = post"
    by (simp add: lenB)
  ultimately have "update_html_file data_cache ?w1 = (Inr (), ?w1)" by simp
  with once show ?thesis by blast
qed


theorem update_html_file_idempotent_witness:
  "universal_newlines html0 = html0
   \<and> start_idx html0 \<noteq> - 1 \<and> py_find html0 end_marker (start_idx html0) \<noteq> - 1
   \<and> py_find (new_data_cache plain_cache) end_marker 0
        = int (length (new_data_cache plain_cache)) - int (length end_marker)
   \<and> CHR 0x0D \<notin> set (new_data_cache plain_cache)
   \<and> (\<exists>w1. update_html_file plain_cache \<lparr>conn = Closed, index_html = Some html0\<rparr> = (Inr (), w1)
           \<and> index_html w1 \<noteq> Some html0
           \<and> update_html_file plain_cache w1 = (Inr (), w1))"
proof -
  let ?w = "\<lparr>conn = Closed, index_html = Some html0\<rparr>"
  have h1: "index_html ?w = Some html0" by simp
  have h3: "start_idx html0 \<noteq> - 1" by (simp add: start_idx_html0)
  have e: "py_find html0 end_marker (int 18) = int 38"
    by (simp add: html0_def py_find_def clamp_index_def end_marker_def)
  then have h4: "py_find html0 end_marker (start_idx html0) \<noteq> - 1"
    by (simp add: start_idx_html0)
  from update_html_file_idempotent
    [OF h1 html0_read h3 h4 plain_cache_first_end_marker plain_cache_no_cr]
  obtain w1 where w1: "update_html_file plain_cache ?w = (Inr (), w1)"
    "update_html_file plain_cache w1 = (Inr (), w1)" by blast
  have s: "start_idx html0 = int 18" by (simp add: start_idx_html0)
  have "update_html_file plain_cache ?w = (Inr (), ?w\<lparr>index_html :=
      Some (take 18 html0 @ new_data_cache plain_cache @ drop (38 + length end_marker) html0)\<rparr>)"
    using h1 html0_read s e by (rule update_html_file_found)
  with w1(1) have "index_html w1
      = Some (take 18 html0 @ new_data_cache plain_cache @ drop (38 + length end_marker) html0)"
    by auto
  moreover have "plain_cache \<noteq> []" by (simp add: plain_cache_def)
  then have "length start_marker + length end_marker + 13 \<le> length (new_data_cache plain_cache)"
    by (rule new_data_cache_longer)
  then have "length html0 < length (take 18 html0 @ new_data_cache plain_cache
      @ drop (38 + length end_marker) html0)"
    by (simp add: html0_def length_start_marker length_end_marker)
  then have "take 18 html0 @ new_data_cache plain_cache @ drop (38 + length end_marker) html0 \<noteq> html0"
    by (metis less_irrefl)
  ultimately have "index_html w1 \<noteq> Some html0" by simp
  with w1 html0_read h3 h4 plain_cache_first_end_marker plain_cache_no_cr show ?thesis by blast
qed

section \<open>A run that writes and a run that fails\<close>


end
